theory Spec2Isabelle
  imports Complex_Main
begin

section \<open>Python numbers\<close>

text \<open>
  A Python float is an IEEE 754 binary64 value: a real number that the format represents,
  an infinity, or NaN. The two zeros are identified: the program never tells them apart
  (it divides only where the divisor is not zero).
\<close>

datatype pyfloat = Fin real | PInf | NInf | NaN

text \<open>Rounding of a real to an integer, halves to the even neighbour.\<close>

definition round_even :: "real \<Rightarrow> int" where
  "round_even t =
     (let f = \<lfloor>t\<rfloor>
      in if t - of_int f < 1 / 2 then f
         else if 1 / 2 < t - of_int f then f + 1
         else if even f then f else f + 1)"

text \<open>
  The binary exponent of a non-zero real, not below that of the smallest normal number;
  a double has 53 significant bits, so its last bit weighs \<open>2 powi (expo x - 52)\<close>.
\<close>

definition expo :: "real \<Rightarrow> int" where
  "expo x = max \<lfloor>log 2 \<bar>x\<bar>\<rfloor> (- 1022)"

definition rnd_real :: "real \<Rightarrow> real" where
  "rnd_real x =
     (if x = 0 then 0
      else of_int (round_even (x / 2 powi (expo x - 52))) * 2 powi (expo x - 52))"

definition huge :: real where
  "huge = 2 ^ 1024"

text \<open>Round to nearest, ties to even, with overflow to an infinity.\<close>

definition rnd :: "real \<Rightarrow> pyfloat" where
  "rnd x =
     (let y = rnd_real x
      in if huge \<le> y then PInf else if y \<le> - huge then NInf else Fin y)"

fun fneg :: "pyfloat \<Rightarrow> pyfloat" where
  "fneg (Fin x) = Fin (- x)"
| "fneg PInf = NInf"
| "fneg NInf = PInf"
| "fneg NaN = NaN"

fun fadd :: "pyfloat \<Rightarrow> pyfloat \<Rightarrow> pyfloat" where
  "fadd (Fin x) (Fin y) = rnd (x + y)"
| "fadd NaN b = NaN"
| "fadd a NaN = NaN"
| "fadd PInf NInf = NaN"
| "fadd NInf PInf = NaN"
| "fadd PInf b = PInf"
| "fadd a PInf = PInf"
| "fadd NInf b = NInf"
| "fadd a NInf = NInf"

definition fsub :: "pyfloat \<Rightarrow> pyfloat \<Rightarrow> pyfloat" where
  "fsub a b = fadd a (fneg b)"

text \<open>The sign of an infinite product or quotient.\<close>

definition signed_inf :: "bool \<Rightarrow> pyfloat" where
  "signed_inf positive = (if positive then PInf else NInf)"

fun fmul :: "pyfloat \<Rightarrow> pyfloat \<Rightarrow> pyfloat" where
  "fmul (Fin x) (Fin y) = rnd (x * y)"
| "fmul NaN b = NaN"
| "fmul a NaN = NaN"
| "fmul (Fin x) PInf = (if x = 0 then NaN else signed_inf (0 < x))"
| "fmul (Fin x) NInf = (if x = 0 then NaN else signed_inf (x < 0))"
| "fmul PInf (Fin y) = (if y = 0 then NaN else signed_inf (0 < y))"
| "fmul NInf (Fin y) = (if y = 0 then NaN else signed_inf (y < 0))"
| "fmul PInf PInf = PInf"
| "fmul NInf NInf = PInf"
| "fmul PInf NInf = NInf"
| "fmul NInf PInf = NInf"

text \<open>Division by a float that is not zero.\<close>

fun fdiv_nz :: "pyfloat \<Rightarrow> pyfloat \<Rightarrow> pyfloat" where
  "fdiv_nz (Fin x) (Fin y) = rnd (x / y)"
| "fdiv_nz NaN b = NaN"
| "fdiv_nz a NaN = NaN"
| "fdiv_nz (Fin x) b = Fin 0"
| "fdiv_nz PInf (Fin y) = signed_inf (0 < y)"
| "fdiv_nz NInf (Fin y) = signed_inf (y < 0)"
| "fdiv_nz a b = NaN"

text \<open>\<open>a < b\<close> and \<open>a <= b\<close> on floats: false whenever a NaN is involved.\<close>

fun flt :: "pyfloat \<Rightarrow> pyfloat \<Rightarrow> bool" where
  "flt (Fin x) (Fin y) = (x < y)"
| "flt NaN b = False"
| "flt a NaN = False"
| "flt a NInf = False"
| "flt PInf b = False"
| "flt NInf b = True"
| "flt a PInf = True"

fun fle :: "pyfloat \<Rightarrow> pyfloat \<Rightarrow> bool" where
  "fle (Fin x) (Fin y) = (x \<le> y)"
| "fle NaN b = False"
| "fle a NaN = False"
| "fle NInf b = True"
| "fle a PInf = True"
| "fle a b = False"

datatype error = ValueError | AttributeError | TypeError | OverflowError | ZeroDivisionError

definition and_then :: "error + 'a \<Rightarrow> ('a \<Rightarrow> error + 'b) \<Rightarrow> error + 'b" where
  "and_then r f = (case r of Inl e \<Rightarrow> Inl e | Inr x \<Rightarrow> f x)"

text \<open>\<open>a / b\<close> on floats raises when \<open>b\<close> is zero.\<close>

definition fdiv :: "pyfloat \<Rightarrow> pyfloat \<Rightarrow> error + pyfloat" where
  "fdiv a b = (if b = Fin 0 then Inl ZeroDivisionError else Inr (fdiv_nz a b))"

text \<open>
  The conversion of an int that arithmetic with a float performs: correctly rounded, and
  an \<open>OverflowError\<close> when the result would not be finite.
\<close>

definition int_to_float :: "int \<Rightarrow> error + pyfloat" where
  "int_to_float n = (case rnd (of_int n) of Fin y \<Rightarrow> Inr (Fin y) | _ \<Rightarrow> Inl OverflowError)"

text \<open>\<open>math.ceil\<close> of a float: an int, or an exception for an infinity or NaN.\<close>

fun pyceil :: "pyfloat \<Rightarrow> error + int" where
  "pyceil (Fin x) = Inr \<lceil>x\<rceil>"
| "pyceil NaN = Inl ValueError"
| "pyceil a = Inl OverflowError"

text \<open>
  A countdown holds an int (a clearance time) or a float. Arithmetic on two ints is
  exact; with a float involved the int is converted first. Comparisons are exact.
\<close>

datatype num = I int | F pyfloat

fun to_float :: "num \<Rightarrow> error + pyfloat" where
  "to_float (I n) = int_to_float n"
| "to_float (F x) = Inr x"

fun num_value :: "num \<Rightarrow> pyfloat" where
  "num_value (I n) = Fin (of_int n)"
| "num_value (F x) = x"

definition num_lt :: "num \<Rightarrow> num \<Rightarrow> bool" where
  "num_lt a b = flt (num_value a) (num_value b)"

fun num_sub :: "num \<Rightarrow> num \<Rightarrow> error + num" where
  "num_sub (I x) (I y) = Inr (I (x - y))"
| "num_sub a b = and_then (to_float a) (\<lambda>x. and_then (to_float b) (\<lambda>y. Inr (F (fsub x y))))"

text \<open>\<open>c + d\<close> for a float \<open>c\<close>.\<close>

definition float_add_num :: "pyfloat \<Rightarrow> num \<Rightarrow> error + pyfloat" where
  "float_add_num c d = and_then (to_float d) (\<lambda>y. Inr (fadd c y))"

text \<open>\<open>n * x\<close> for an int \<open>n\<close> and a float \<open>x\<close>.\<close>

definition int_times :: "int \<Rightarrow> pyfloat \<Rightarrow> error + pyfloat" where
  "int_times n x = and_then (int_to_float n) (\<lambda>k. Inr (fmul k x))"

text \<open>The double that the literal \<open>1e-9\<close> denotes.\<close>

definition tolerance :: pyfloat where
  "tolerance = Fin (4835703278458517 / 2 ^ 82)"

section \<open>Data model (rooms.py)\<close>

text \<open>
  Mutable objects live in a store: rooms and their \<open>OccupantInfo\<close> objects are
  addressed by natural numbers, so that two list entries can be the same object and two
  rooms can share one occupant record. Fields and parameters annotated \<open>float\<close> hold
  floats, counts are ints.
\<close>

type_synonym Point = "pyfloat \<times> pyfloat"

record OccupantInfo =
  adults :: int
  children :: int
  unabled :: int

record Door =
  door_x :: pyfloat
  door_y :: pyfloat

definition door_position :: "Door \<Rightarrow> Point" where
  "door_position d = (door_x d, door_y d)"

record RoomGeometry =
  bottom_left :: Point
  top_right :: Point

definition center :: "RoomGeometry \<Rightarrow> Point" where
  "center g = (fdiv_nz (fadd (fst (bottom_left g)) (fst (top_right g))) (Fin 2),
               fdiv_nz (fadd (snd (bottom_left g)) (snd (top_right g))) (Fin 2))"

text \<open>\<open>occupants\<close> is the address of the room's \<open>OccupantInfo\<close> object.\<close>

record RoomNode =
  room_id :: string
  base_clear_time :: pyfloat
  occupants :: nat
  shape :: RoomGeometry
  doors :: "Door list"

record ExitNode =
  exit_id :: string
  exit_x :: pyfloat
  exit_y :: pyfloat

definition exit_position :: "ExitNode \<Rightarrow> Point" where
  "exit_position e = (exit_x e, exit_y e)"

record heap =
  room_objs :: "nat \<Rightarrow> RoomNode"
  occ_objs :: "nat \<Rightarrow> OccupantInfo"

definition room_occupants :: "heap \<Rightarrow> nat \<Rightarrow> OccupantInfo" where
  "room_occupants h room = occ_objs h (occupants (room_objs h room))"

text \<open>
  \<open>RoomNode.clearance_time\<close>: \<open>ceil(base_clear_time + extra)\<close> with the int
  \<open>extra = 5 * children\<close>; the sum is a float sum.
\<close>

definition clearance_time :: "heap \<Rightarrow> nat \<Rightarrow> error + int" where
  "clearance_time h room =
     (let extra = 5 * children (room_occupants h room)
      in and_then (int_to_float extra)
           (\<lambda>e. pyceil (fadd (base_clear_time (room_objs h room)) e)))"

definition get_door_positions :: "heap \<Rightarrow> nat \<Rightarrow> Point list" where
  "get_door_positions h room = map door_position (doors (room_objs h room))"

section \<open>Distance and the unabled-evacuation timing model (shitty_simulation.py)\<close>

text \<open>
  \<open>math.hypot\<close> is a library function whose rounding the repository does not fix; it
  is the parameter \<open>hyp\<close> of every function that measures a distance.
\<close>

definition distance :: "(pyfloat \<Rightarrow> pyfloat \<Rightarrow> pyfloat) \<Rightarrow> Point \<Rightarrow> Point \<Rightarrow> pyfloat" where
  "distance hyp a b = hyp (fsub (fst a) (fst b)) (fsub (snd a) (snd b))"

text \<open>
  The loop of \<open>_nearest_exit\<close> on its two variables \<open>best_exit\<close> and
  \<open>best_dist\<close>.
\<close>

fun nearest_exit_scan :: "(pyfloat \<Rightarrow> pyfloat \<Rightarrow> pyfloat) \<Rightarrow> Point \<Rightarrow> ExitNode list
    \<Rightarrow> ExitNode option \<times> pyfloat \<Rightarrow> ExitNode option \<times> pyfloat" where
  "nearest_exit_scan hyp source [] best = best"
| "nearest_exit_scan hyp source (ex # exs) (best_exit, best_dist) =
     (let pos = exit_position ex;
          dst = distance hyp source pos
      in if flt dst best_dist
         then nearest_exit_scan hyp source exs (Some ex, dst)
         else nearest_exit_scan hyp source exs (best_exit, best_dist))"

definition nearest_exit :: "(pyfloat \<Rightarrow> pyfloat \<Rightarrow> pyfloat) \<Rightarrow> Point \<Rightarrow> ExitNode list
    \<Rightarrow> ExitNode option \<times> pyfloat" where
  "nearest_exit hyp source exits =
     (if exits = [] then (None, Fin 0) else nearest_exit_scan hyp source exits (None, PInf))"

definition unabled_evac_time :: "(pyfloat \<Rightarrow> pyfloat \<Rightarrow> pyfloat) \<Rightarrow> int \<Rightarrow> Point
    \<Rightarrow> ExitNode list \<Rightarrow> pyfloat \<Rightarrow> error + (pyfloat \<times> Point)" where
  "unabled_evac_time hyp num_unabled door_pos exits responder_speed =
     (if num_unabled \<le> 0 \<or> fle responder_speed (Fin 0) \<or> exits = [] then Inr (Fin 0, door_pos)
      else
        (case nearest_exit hyp door_pos exits of
           (None, dst) \<Rightarrow> Inr (Fin 0, door_pos)
         | (Some exit_node, dst) \<Rightarrow>
             (let d = dst; s = responder_speed
              in and_then
                   (if num_unabled = 1
                    then and_then (int_times 2 d) (\<lambda>m. fdiv m s)
                    else and_then (int_times (3 * num_unabled - 1) d) (\<lambda>m. fdiv m s))
                   (\<lambda>extra_time. Inr (extra_time, exit_position exit_node)))))"

section \<open>Responders and the assignment policy\<close>

text \<open>The four strings the driver stores in \<open>ResponderState.state\<close>.\<close>

datatype activity = Idle | Moving | Clearing | Evacuating_unabled

text \<open>
  \<open>position\<close> is optional because the driver copies \<open>target_door\<close>, an
  \<open>Optional[Point]\<close>, into it.
\<close>

record ResponderState =
  state :: activity
  time_remaining :: num
  position :: "Point option"
  target_room :: "nat option"
  target_door :: "Point option"

text \<open>
  The inner and the outer loop of \<open>_choose_nearest_room\<close> on the three variables
  \<open>best_room\<close>, \<open>best_door\<close> and \<open>best_dist\<close>.
\<close>

fun scan_doors :: "(pyfloat \<Rightarrow> pyfloat \<Rightarrow> pyfloat) \<Rightarrow> Point \<Rightarrow> nat \<Rightarrow> Point list
    \<Rightarrow> nat option \<times> Point option \<times> pyfloat \<Rightarrow> nat option \<times> Point option \<times> pyfloat" where
  "scan_doors hyp pos room [] best = best"
| "scan_doors hyp pos room (d # ds) (best_room, best_door, best_dist) =
     (let dst = distance hyp pos d
      in if flt dst best_dist
         then scan_doors hyp pos room ds (Some room, Some d, dst)
         else scan_doors hyp pos room ds (best_room, best_door, best_dist))"

text \<open>\<open>room.get_door_positions() or [room.shape.center]\<close>\<close>

definition door_positions :: "heap \<Rightarrow> nat \<Rightarrow> Point list" where
  "door_positions h room =
     (if get_door_positions h room = [] then [center (shape (room_objs h room))]
      else get_door_positions h room)"

fun scan_rooms :: "(pyfloat \<Rightarrow> pyfloat \<Rightarrow> pyfloat) \<Rightarrow> heap \<Rightarrow> Point \<Rightarrow> nat list
    \<Rightarrow> nat option \<times> Point option \<times> pyfloat \<Rightarrow> nat option \<times> Point option \<times> pyfloat" where
  "scan_rooms hyp h pos [] best = best"
| "scan_rooms hyp h pos (room # rest) best =
     scan_rooms hyp h pos rest (scan_doors hyp pos room (door_positions h room) best)"

text \<open>
  \<open>_choose_nearest_room\<close>. With a non-empty \<open>rooms_left\<close> the first room has a
  candidate point, so \<open>_distance\<close> subscripts \<open>responder.position\<close> and raises
  \<open>TypeError\<close> when that is \<open>None\<close>. The function reads the store and returns no
  new one: the source assigns to local variables only.
\<close>

definition choose_nearest_room :: "(pyfloat \<Rightarrow> pyfloat \<Rightarrow> pyfloat) \<Rightarrow> heap \<Rightarrow> ResponderState
    \<Rightarrow> nat list \<Rightarrow> pyfloat \<Rightarrow> error + (nat option \<times> Point option \<times> pyfloat)" where
  "choose_nearest_room hyp h responder rooms_left speed =
     (if rooms_left = [] then Inr (None, None, Fin 0)
      else
        (case position responder of
           None \<Rightarrow> Inl TypeError
         | Some pos \<Rightarrow>
             (case scan_rooms hyp h pos rooms_left (None, None, PInf) of
                (best_room, best_door, best_dist) \<Rightarrow>
                  if best_room = None then Inr (None, None, Fin 0)
                  else and_then
                         (if flt (Fin 0) speed then fdiv best_dist speed else Inr (Fin 0))
                         (\<lambda>travel_time. Inr (best_room, best_door, travel_time)))))"

section \<open>The simulation driver\<close>

text \<open>
  The state of \<open>find_fastest_evacuation\<close> between two statements: the store, the
  contents of the caller's two list objects (\<open>rooms\<close> and \<open>exits\<close>), and the local
  variables. \<open>remaining_rooms\<close> is the private copy \<open>list(rooms)\<close>.
\<close>

record sim_state =
  store :: heap
  caller_rooms :: "nat list"
  caller_exits :: "ExitNode list"
  remaining_rooms :: "nat list"
  available_rooms :: "nat list"
  responders :: "ResponderState list"
  current_time :: pyfloat

text \<open>
  Equality of two rooms as the generated \<open>__eq__\<close> of the dataclasses decides it: field
  by field, an identical object being equal without a look at its fields. Floats are
  compared by value, so a NaN equals nothing; that two rooms might hold the very same
  float object is not modelled.
\<close>

definition feq :: "pyfloat \<Rightarrow> pyfloat \<Rightarrow> bool" where
  "feq a b = (a = b \<and> a \<noteq> NaN)"

definition point_eq :: "Point \<Rightarrow> Point \<Rightarrow> bool" where
  "point_eq p q = (feq (fst p) (fst q) \<and> feq (snd p) (snd q))"

definition door_eq :: "Door \<Rightarrow> Door \<Rightarrow> bool" where
  "door_eq c d = (feq (door_x c) (door_x d) \<and> feq (door_y c) (door_y d))"

definition shape_eq :: "RoomGeometry \<Rightarrow> RoomGeometry \<Rightarrow> bool" where
  "shape_eq f g =
     (point_eq (bottom_left f) (bottom_left g) \<and> point_eq (top_right f) (top_right g))"

definition room_eq :: "heap \<Rightarrow> nat \<Rightarrow> nat \<Rightarrow> bool" where
  "room_eq h a b =
     (a = b \<or>
      (let ra = room_objs h a; rb = room_objs h b
       in room_id ra = room_id rb \<and> feq (base_clear_time ra) (base_clear_time rb) \<and>
          (occupants ra = occupants rb \<or>
           occ_objs h (occupants ra) = occ_objs h (occupants rb)) \<and>
          shape_eq (shape ra) (shape rb) \<and> list_all2 door_eq (doors ra) (doors rb)))"

text \<open>\<open>room in xs\<close>\<close>

definition room_in :: "heap \<Rightarrow> nat \<Rightarrow> nat list \<Rightarrow> bool" where
  "room_in h room xs = list_ex (\<lambda>x. room_eq h x room) xs"

text \<open>
  \<open>xs.remove(room)\<close>: drops the first entry equal to \<open>room\<close>. Both call sites test
  \<open>room in xs\<close> first, so the \<open>ValueError\<close> of an absent element cannot occur;
  \<open>remove_if_in\<close> is the guarded statement as a whole.
\<close>

fun list_remove :: "heap \<Rightarrow> nat \<Rightarrow> nat list \<Rightarrow> nat list" where
  "list_remove h room [] = []"
| "list_remove h room (x # xs) =
     (if room_eq h x room then xs else x # list_remove h room xs)"

definition remove_if_in :: "heap \<Rightarrow> nat \<Rightarrow> nat list \<Rightarrow> nat list" where
  "remove_if_in h room xs = (if room_in h room xs then list_remove h room xs else xs)"

definition is_busy :: "ResponderState \<Rightarrow> bool" where
  "is_busy r = (state r = Moving \<or> state r = Clearing \<or> state r = Evacuating_unabled)"

definition already_taken :: "ResponderState list \<Rightarrow> nat list" where
  "already_taken rs =
     map (\<lambda>r. the (target_room r)) (filter (\<lambda>r. is_busy r \<and> target_room r \<noteq> None) rs)"

definition compute_available :: "sim_state \<Rightarrow> sim_state" where
  "compute_available st =
     st\<lparr>available_rooms :=
          filter (\<lambda>room. \<not> room_in (store st) room (already_taken (responders st)))
            (remaining_rooms st)\<rparr>"

text \<open>The body of the assignment loop for the responder at index \<open>i\<close>.\<close>

definition assign_one :: "(pyfloat \<Rightarrow> pyfloat \<Rightarrow> pyfloat) \<Rightarrow> pyfloat \<Rightarrow> nat \<Rightarrow> sim_state
    \<Rightarrow> (error \<times> sim_state) + sim_state" where
  "assign_one hyp speed i st =
     (let r = responders st ! i
      in if state r = Idle \<and> available_rooms st \<noteq> [] then
           (case choose_nearest_room hyp (store st) r (available_rooms st) speed of
              Inl e \<Rightarrow> Inl (e, st)
            | Inr (None, door, travel_time) \<Rightarrow> Inr st
            | Inr (Some room, door, travel_time) \<Rightarrow>
                Inr (st\<lparr>responders := (responders st)
                          [i := r\<lparr>state := Moving, time_remaining := F travel_time,
                                  target_room := Some room, target_door := door\<rparr>],
                        available_rooms := filter (\<lambda>rm. rm \<noteq> room) (available_rooms st)\<rparr>))
         else Inr st)"

text \<open>\<open>room.occupants.unabled = 0\<close>\<close>

definition zero_unabled :: "heap \<Rightarrow> nat \<Rightarrow> heap" where
  "zero_unabled h room =
     (let a = occupants (room_objs h room)
      in h\<lparr>occ_objs := (occ_objs h)(a := (occ_objs h a)\<lparr>unabled := 0\<rparr>)\<rparr>)"

text \<open>\<open>r.time_remaining -= dt\<close> for an active responder, at index \<open>i\<close>.\<close>

definition advance_one :: "num \<Rightarrow> nat \<Rightarrow> sim_state \<Rightarrow> (error \<times> sim_state) + sim_state" where
  "advance_one dt i st =
     (let r = responders st ! i
      in if is_busy r then
           (case num_sub (time_remaining r) dt of
              Inl e \<Rightarrow> Inl (e, st)
            | Inr t \<Rightarrow> Inr (st\<lparr>responders := (responders st)[i := r\<lparr>time_remaining := t\<rparr>]\<rparr>))
         else Inr st)"

text \<open>
  The body of the loop that processes finished responders, for the responder at index
  \<open>i\<close>. The progress message of the source is not modelled; reading
  \<open>r.target_room.id\<close> for it raises \<open>AttributeError\<close> on \<open>None\<close>. With a position
  that is \<open>None\<close>, \<open>_unabled_evac_time\<close> hands it back from its guard, and past the
  guard \<open>_distance\<close> subscripts it and raises \<open>TypeError\<close>. An exception leaves the
  state as the statements before it have made it.
\<close>

definition process_one :: "(pyfloat \<Rightarrow> pyfloat \<Rightarrow> pyfloat) \<Rightarrow> pyfloat \<Rightarrow> nat \<Rightarrow> sim_state
    \<Rightarrow> (error \<times> sim_state) + sim_state" where
  "process_one hyp speed i st =
     (let r = responders st ! i
      in if num_lt (F tolerance) (time_remaining r) then Inr st
         else
           (case state r of
              Idle \<Rightarrow> Inr st
            | Moving \<Rightarrow>
                (case target_room r of
                   None \<Rightarrow>
                     Inl (AttributeError,
                          st\<lparr>responders := (responders st)[i := r\<lparr>position := target_door r\<rparr>]\<rparr>)
                 | Some room \<Rightarrow>
                     (case clearance_time (store st) room of
                        Inl e \<Rightarrow>
                          Inl (e, st\<lparr>responders := (responders st)
                                      [i := r\<lparr>state := Clearing, position := target_door r\<rparr>]\<rparr>)
                      | Inr t \<Rightarrow>
                          Inr (st\<lparr>responders := (responders st)
                                    [i := r\<lparr>state := Clearing, time_remaining := I t,
                                            position := target_door r\<rparr>]\<rparr>)))
            | Clearing \<Rightarrow>
                (case target_room r of
                   None \<Rightarrow> Inr (st\<lparr>responders := (responders st)[i := r\<lparr>state := Idle\<rparr>]\<rparr>)
                 | Some room \<Rightarrow>
                     (let num_unabled = unabled (room_occupants (store st) room)
                      in if num_unabled > 0 \<and> caller_exits st \<noteq> [] then
                           (case position r of
                              None \<Rightarrow>
                                if fle speed (Fin 0) then
                                  Inr (st\<lparr>store := zero_unabled (store st) room,
                                          responders := (responders st)
                                            [i := r\<lparr>state := Evacuating_unabled,
                                                    time_remaining := F (Fin 0),
                                                    position := None\<rparr>]\<rparr>)
                                else Inl (TypeError, st)
                            | Some door_pos \<Rightarrow>
                                (case unabled_evac_time hyp num_unabled door_pos
                                        (caller_exits st) speed of
                                   Inl e \<Rightarrow> Inl (e, st)
                                 | Inr (extra_time, final_pos) \<Rightarrow>
                                     Inr (st\<lparr>store := zero_unabled (store st) room,
                                             responders := (responders st)
                                               [i := r\<lparr>state := Evacuating_unabled,
                                                       time_remaining := F extra_time,
                                                       position := Some final_pos\<rparr>]\<rparr>)))
                         else
                           Inr (st\<lparr>remaining_rooms :=
                                     remove_if_in (store st) room (remaining_rooms st),
                                   responders := (responders st)
                                     [i := r\<lparr>state := Idle, time_remaining := F (Fin 0),
                                             target_room := None, target_door := None\<rparr>]\<rparr>)))
            | Evacuating_unabled \<Rightarrow>
                Inr (st\<lparr>remaining_rooms :=
                          (case target_room r of
                             None \<Rightarrow> remaining_rooms st
                           | Some room \<Rightarrow> remove_if_in (store st) room (remaining_rooms st)),
                        responders := (responders st)
                          [i := r\<lparr>state := Idle, time_remaining := F (Fin 0),
                                  target_room := None, target_door := None\<rparr>]\<rparr>)))"

text \<open>\<open>for r in responders\<close>: the body runs at each index; an exception ends the loop.\<close>

fun for_each :: "(nat \<Rightarrow> sim_state \<Rightarrow> (error \<times> sim_state) + sim_state) \<Rightarrow> nat list
    \<Rightarrow> sim_state \<Rightarrow> (error \<times> sim_state) + sim_state" where
  "for_each body [] st = Inr st"
| "for_each body (i # js) st =
     (case body i st of Inl e \<Rightarrow> Inl e | Inr st' \<Rightarrow> for_each body js st')"

text \<open>\<open>min\<close> of a generator: the first item, replaced by each later, smaller one.\<close>

definition py_min :: "num \<Rightarrow> num list \<Rightarrow> num" where
  "py_min first rest = fold (\<lambda>x m. if num_lt x m then x else m) rest first"

text \<open>
  One pass of the \<open>while\<close> loop. The boolean of the result is \<open>False\<close> when the pass
  ended in \<open>break\<close> (nobody is active).
\<close>

definition sim_pass :: "(pyfloat \<Rightarrow> pyfloat \<Rightarrow> pyfloat) \<Rightarrow> pyfloat \<Rightarrow> sim_state
    \<Rightarrow> (error \<times> sim_state) + (bool \<times> sim_state)" where
  "sim_pass hyp speed st =
     (let st1 = compute_available st
      in case for_each (assign_one hyp speed) [0..<length (responders st1)] st1 of
           Inl e \<Rightarrow> Inl e
         | Inr st2 \<Rightarrow>
             (case filter is_busy (responders st2) of
                [] \<Rightarrow> Inr (False, st2)
              | a # active \<Rightarrow>
                  (let dt = py_min (time_remaining a) (map time_remaining active)
                   in case float_add_num (current_time st2) dt of
                        Inl e \<Rightarrow> Inl (e, st2)
                      | Inr t \<Rightarrow>
                          (case for_each (advance_one dt) [0..<length (responders st2)]
                                  (st2\<lparr>current_time := t\<rparr>) of
                             Inl e \<Rightarrow> Inl e
                           | Inr st3 \<Rightarrow>
                               (case for_each (process_one hyp speed)
                                       [0..<length (responders st3)] st3 of
                                  Inl e \<Rightarrow> Inl e
                                | Inr st4 \<Rightarrow> Inr (True, st4))))))"

definition loop_cond :: "sim_state \<Rightarrow> bool" where
  "loop_cond st =
     (remaining_rooms st \<noteq> [] \<or> list_ex (\<lambda>r. state r \<noteq> Idle) (responders st))"

text \<open>The \<open>while\<close> loop; \<open>None\<close> is a loop that never ends.\<close>

partial_function (option) sim_loop :: "(pyfloat \<Rightarrow> pyfloat \<Rightarrow> pyfloat) \<Rightarrow> pyfloat \<Rightarrow> sim_state
    \<Rightarrow> ((error \<times> sim_state) + sim_state) option" where
  "sim_loop hyp speed st =
     (if loop_cond st then
        (case sim_pass hyp speed st of
           Inl e \<Rightarrow> Some (Inl e)
         | Inr (continue, st') \<Rightarrow> if continue then sim_loop hyp speed st' else Some (Inr st'))
      else Some (Inr st))"

definition initial_state :: "int \<Rightarrow> nat list \<Rightarrow> ExitNode list \<Rightarrow> Point \<Rightarrow> heap \<Rightarrow> sim_state" where
  "initial_state n_responders rooms exits start_position h =
     \<lparr>store = h, caller_rooms = rooms, caller_exits = exits,
      remaining_rooms = rooms, available_rooms = [],
      responders = replicate (nat n_responders)
        \<lparr>state = Idle, time_remaining = F (Fin 0), position = Some start_position,
         target_room = None, target_door = None\<rparr>,
      current_time = Fin 0\<rparr>"

text \<open>
  \<open>find_fastest_evacuation\<close>. The result is the returned time or the exception, with the
  store and the contents of the caller's two lists as the call leaves them.
\<close>

definition find_fastest_evacuation :: "(pyfloat \<Rightarrow> pyfloat \<Rightarrow> pyfloat) \<Rightarrow> int \<Rightarrow> nat list
    \<Rightarrow> ExitNode list \<Rightarrow> pyfloat \<Rightarrow> Point \<Rightarrow> heap
    \<Rightarrow> ((error + pyfloat) \<times> heap \<times> nat list \<times> ExitNode list) option" where
  "find_fastest_evacuation hyp n_responders rooms exits responder_speed start_position h =
     (if fle responder_speed (Fin 0) then Some (Inl ValueError, h, rooms, exits)
      else
        (case sim_loop hyp responder_speed
                (initial_state n_responders rooms exits start_position h) of
           None \<Rightarrow> None
         | Some (Inl (e, st)) \<Rightarrow> Some (Inl e, store st, caller_rooms st, caller_exits st)
         | Some (Inr st) \<Rightarrow>
             Some (Inr (current_time st), store st, caller_rooms st, caller_exits st)))"

section \<open>Specification-level notions\<close>

text \<open>
  The linear scan that the two nearest-neighbour loops share: the best element seen so far
  with its key, replaced only by a strictly smaller key. It is used to state and prove what
  the loops compute.
\<close>

fun first_min :: "('a \<Rightarrow> pyfloat) \<Rightarrow> 'a list \<Rightarrow> 'a option \<times> pyfloat \<Rightarrow> 'a option \<times> pyfloat" where
  "first_min f [] best = best"
| "first_min f (x # xs) (b, v) =
     (if flt (f x) v then first_min f xs (Some x, f x) else first_min f xs (b, v))"

text \<open>
  The candidate access points of the assignment policy as the specification words them:
  every door position of a room, or the centre of its rectangle if it has no doors; rooms
  in list order, then doors in list order.
\<close>

definition access_points :: "heap \<Rightarrow> nat \<Rightarrow> Point list" where
  "access_points h room =
     (case doors (room_objs h room) of
        [] \<Rightarrow> [center (shape (room_objs h room))]
      | d # ds \<Rightarrow> map door_position (d # ds))"

definition candidates :: "heap \<Rightarrow> nat list \<Rightarrow> (nat \<times> Point) list" where
  "candidates h rooms_left =
     concat (map (\<lambda>room. map (Pair room) (access_points h room)) rooms_left)"

text \<open>The three variables of the room scan, regrouped as a candidate with its key.\<close>

fun pack :: "nat option \<times> Point option \<times> pyfloat \<Rightarrow> (nat \<times> Point) option \<times> pyfloat" where
  "pack (Some r, Some d, v) = (Some (r, d), v)"
| "pack (r, d, v) = (None, v)"

text \<open>The rooms a responder claims: its target room while it is not idle.\<close>

definition claimed :: "ResponderState \<Rightarrow> nat set" where
  "claimed r = (if state r \<noteq> Idle then set_option (target_room r) else {})"

text \<open>
  The program points of the simulation loop. From the initial state, the driver only ever
  recomputes the available rooms, runs the body of the assignment loop at a responder,
  sets the clock, lowers the countdown of a responder, or runs the body of the processing
  loop at a responder; an exception leaves the loop in the state of the failing body. The
  relation allows these steps in any order, so it contains every state the driver passes
  through.
\<close>

inductive sim_point :: "(pyfloat \<Rightarrow> pyfloat \<Rightarrow> pyfloat) \<Rightarrow> pyfloat \<Rightarrow> sim_state \<Rightarrow> sim_state \<Rightarrow> bool"
  for hyp speed init where
  at_start: "sim_point hyp speed init init"
| at_available: "sim_point hyp speed init st \<Longrightarrow> sim_point hyp speed init (compute_available st)"
| at_assign: "sim_point hyp speed init st \<Longrightarrow> i < length (responders st) \<Longrightarrow>
     assign_one hyp speed i st = Inr st' \<Longrightarrow> sim_point hyp speed init st'"
| at_assign_raise: "sim_point hyp speed init st \<Longrightarrow> i < length (responders st) \<Longrightarrow>
     assign_one hyp speed i st = Inl (e, st') \<Longrightarrow> sim_point hyp speed init st'"
| at_clock: "sim_point hyp speed init st \<Longrightarrow> sim_point hyp speed init (st\<lparr>current_time := t\<rparr>)"
| at_advance: "sim_point hyp speed init st \<Longrightarrow> i < length (responders st) \<Longrightarrow>
     advance_one dt i st = Inr st' \<Longrightarrow> sim_point hyp speed init st'"
| at_advance_raise: "sim_point hyp speed init st \<Longrightarrow> i < length (responders st) \<Longrightarrow>
     advance_one dt i st = Inl (e, st') \<Longrightarrow> sim_point hyp speed init st'"
| at_process: "sim_point hyp speed init st \<Longrightarrow> i < length (responders st) \<Longrightarrow>
     process_one hyp speed i st = Inr st' \<Longrightarrow> sim_point hyp speed init st'"
| at_process_raise: "sim_point hyp speed init st \<Longrightarrow> i < length (responders st) \<Longrightarrow>
     process_one hyp speed i st = Inl (e, st') \<Longrightarrow> sim_point hyp speed init st'"

text \<open>
  The room-claim invariant of the driver: two different responders never claim a common
  room, and no claimed room is among the rooms still on offer in the current pass.
\<close>

definition claim_inv :: "sim_state \<Rightarrow> bool" where
  "claim_inv st =
     ((\<forall>i < length (responders st). \<forall>j < length (responders st). i \<noteq> j \<longrightarrow>
         claimed (responders st ! i) \<inter> claimed (responders st ! j) = {}) \<and>
      (\<forall>i < length (responders st).
         claimed (responders st ! i) \<inter> set (available_rooms st) = {}))"

text \<open>
  What the driver may do to the store: room objects stay as they are, and in an occupant
  record only the unabled count may change, and only to zero.
\<close>

definition heap_frame :: "heap \<Rightarrow> heap \<Rightarrow> bool" where
  "heap_frame h h' =
     (room_objs h' = room_objs h \<and>
      (\<forall>a. adults (occ_objs h' a) = adults (occ_objs h a) \<and>
           children (occ_objs h' a) = children (occ_objs h a) \<and>
           (unabled (occ_objs h' a) = unabled (occ_objs h a) \<or> unabled (occ_objs h' a) = 0)))"

text \<open>
  What one run of a loop body at index \<open>i\<close> may change: the responder at \<open>i\<close>, who
  claims nothing new; the pool of remaining rooms; and the store, by zeroing one room's
  unabled count.
\<close>

definition step_ok :: "nat \<Rightarrow> sim_state \<Rightarrow> sim_state \<Rightarrow> bool" where
  "step_ok i st st' =
     ((\<exists>r'. responders st' = (responders st)[i := r'] \<and>
            claimed r' \<subseteq> claimed (responders st ! i)) \<and>
      available_rooms st' = available_rooms st \<and>
      caller_rooms st' = caller_rooms st \<and> caller_exits st' = caller_exits st \<and>
      (store st' = store st \<or> (\<exists>room. store st' = zero_unabled (store st) room)))"

text \<open>The frame of a run that started in \<open>init\<close>.\<close>

definition frame_inv :: "sim_state \<Rightarrow> sim_state \<Rightarrow> bool" where
  "frame_inv init st =
     (heap_frame (store init) (store st) \<and> caller_rooms st = caller_rooms init \<and>
      caller_exits st = caller_exits init)"

section \<open>A small scenario\<close>

text \<open>
  A correctly rounded \<open>hypot\<close>, to run examples with. The examples use it only where
  the exact distance is a small whole number or lies far beyond the largest double.
\<close>

fun hypot_cr :: "pyfloat \<Rightarrow> pyfloat \<Rightarrow> pyfloat" where
  "hypot_cr (Fin x) (Fin y) = rnd (sqrt (x\<^sup>2 + y\<^sup>2))"
| "hypot_cr PInf b = PInf"
| "hypot_cr NInf b = PInf"
| "hypot_cr a PInf = PInf"
| "hypot_cr a NInf = PInf"
| "hypot_cr a b = NaN"

text \<open>
  One room with a single door at \<open>(2, 0)\<close> and two unabled occupants, and one exit at
  \<open>(4, 0)\<close>; every address of the store holds this room and these occupants.
\<close>

definition scenario_room :: RoomNode where
  "scenario_room =
     \<lparr>room_id = ''A'', base_clear_time = Fin 15, occupants = 0,
      shape = \<lparr>bottom_left = (Fin 0, Fin 0), top_right = (Fin 3, Fin 3)\<rparr>,
      doors = [\<lparr>door_x = Fin 2, door_y = Fin 0\<rparr>]\<rparr>"

definition scenario_heap :: heap where
  "scenario_heap =
     \<lparr>room_objs = (\<lambda>_. scenario_room),
      occ_objs = (\<lambda>_. \<lparr>adults = 0, children = 0, unabled = 2\<rparr>)\<rparr>"

definition scenario_exit :: ExitNode where
  "scenario_exit = \<lparr>exit_id = ''E1'', exit_x = Fin 4, exit_y = Fin 0\<rparr>"

definition scenario_responder :: ResponderState where
  "scenario_responder =
     \<lparr>state = Idle, time_remaining = F (Fin 0), position = Some (Fin 0, Fin 0),
      target_room = None, target_door = None\<rparr>"

text \<open>
  The scenario at the moment its responder, standing at the door, has finished clearing
  the room.
\<close>

definition scenario_cleared :: sim_state where
  "scenario_cleared =
     \<lparr>store = scenario_heap, caller_rooms = [0], caller_exits = [scenario_exit],
      remaining_rooms = [0], available_rooms = [],
      responders = [\<lparr>state = Clearing, time_remaining = I 0, position = Some (Fin 2, Fin 0),
                     target_room = Some 0, target_door = Some (Fin 2, Fin 0)\<rparr>],
      current_time = Fin 17\<rparr>"

text \<open>
  A store whose rooms need no time at all: base clearance zero, a door at the origin and
  no occupants.
\<close>

definition instant_heap :: heap where
  "instant_heap =
     \<lparr>room_objs = (\<lambda>_. \<lparr>room_id = ''Z'', base_clear_time = Fin 0, occupants = 0,
                         shape = \<lparr>bottom_left = (Fin 0, Fin 0), top_right = (Fin 1, Fin 1)\<rparr>,
                         doors = [\<lparr>door_x = Fin 0, door_y = Fin 0\<rparr>]\<rparr>),
      occ_objs = (\<lambda>_. \<lparr>adults = 0, children = 0, unabled = 0\<rparr>)\<rparr>"

text \<open>A store whose rooms have no door; the centre of their rectangle is \<open>(3, 4)\<close>.\<close>

definition doorless_heap :: heap where
  "doorless_heap =
     \<lparr>room_objs = (\<lambda>_. \<lparr>room_id = ''C'', base_clear_time = Fin 15, occupants = 0,
                         shape = \<lparr>bottom_left = (Fin 0, Fin 0), top_right = (Fin 6, Fin 8)\<rparr>,
                         doors = []\<rparr>),
      occ_objs = (\<lambda>_. \<lparr>adults = 0, children = 0, unabled = 0\<rparr>)\<rparr>"

text \<open>
  A store whose rooms have their door at \<open>(1.5 * 2^1023, 1.5 * 2^1023)\<close>, two doubles
  near the top of the range.
\<close>

definition far :: real where
  "far = 3 * 2 ^ 1022"

definition far_heap :: heap where
  "far_heap =
     \<lparr>room_objs = (\<lambda>_. \<lparr>room_id = ''F'', base_clear_time = Fin 15, occupants = 0,
                         shape = \<lparr>bottom_left = (Fin 0, Fin 0), top_right = (Fin 1, Fin 1)\<rparr>,
                         doors = [\<lparr>door_x = Fin far, door_y = Fin far\<rparr>]\<rparr>),
      occ_objs = (\<lambda>_. \<lparr>adults = 0, children = 0, unabled = 0\<rparr>)\<rparr>"

text \<open>An exit at the same far point.\<close>

definition far_exit :: ExitNode where
  "far_exit = \<lparr>exit_id = ''X'', exit_x = Fin far, exit_y = Fin far\<rparr>"


section \<open>Rounding to a double\<close>

lemma round_even_of_int [simp]: "round_even (of_int n) = n"
  by (simp add: round_even_def)

lemma round_even_ge_floor: "\<lfloor>t\<rfloor> \<le> round_even t"
  by (simp add: round_even_def Let_def)

lemma round_even_le_ceiling: "round_even t \<le> \<lceil>t\<rceil>"
proof -
  have "\<lfloor>t\<rfloor> + 1 \<le> \<lceil>t\<rceil>" if "t \<noteq> of_int \<lfloor>t\<rfloor>"
    using that by (metis ceiling_altdef order_refl of_int_floor_cancel)
  moreover have "\<lfloor>t\<rfloor> \<le> \<lceil>t\<rceil>" by (simp add: floor_le_ceiling)
  ultimately show ?thesis
    by (auto simp: round_even_def Let_def)
qed

lemma round_even_mono:
  assumes "s \<le> t"
  shows "round_even s \<le> round_even t"
proof (cases "\<lfloor>s\<rfloor> = \<lfloor>t\<rfloor>")
  case True
  then show ?thesis using assms by (auto simp: round_even_def Let_def)
next
  case False
  then have "\<lfloor>s\<rfloor> < \<lfloor>t\<rfloor>" using assms floor_mono [of s t] by linarith
  then have "\<lceil>s\<rceil> \<le> \<lfloor>t\<rfloor>"
    by (metis ceiling_le_iff floor_less_iff le_floor_iff less_le_not_le linorder_le_cases of_int_floor_le order_trans assms)
  then show ?thesis
    using round_even_le_ceiling [of s] round_even_ge_floor [of t] by linarith
qed

lemma round_even_minus: "round_even (- t) = - round_even t"
proof (cases "t = of_int \<lfloor>t\<rfloor>")
  case True
  then obtain n where "t = of_int n" by metis
  then show ?thesis by (simp flip: of_int_minus)
next
  case False
  then have fl: "\<lfloor>- t\<rfloor> = - \<lfloor>t\<rfloor> - 1"
    by (metis ceiling_altdef ceiling_def diff_minus_eq_add minus_diff_eq add_diff_cancel_left' minus_add_distrib uminus_add_conv_diff)
  show ?thesis
    unfolding round_even_def Let_def fl
    by (auto simp: field_simps)
qed

lemma powr_powi: "(2::real) powr of_int e = 2 powi e"
  by (simp add: powr_real_of_int')

lemma expo_eq:
  assumes "2 powi e \<le> \<bar>x\<bar>" and "\<bar>x\<bar> < 2 powi (e + 1)" and "- 1022 \<le> e"
  shows "expo x = e"
proof -
  have "(0::real) < 2 powi e" by simp
  then have pos: "0 < \<bar>x\<bar>" using assms(1) by linarith
  have "\<lfloor>log 2 \<bar>x\<bar>\<rfloor> = e"
    using assms(1,2) pos
    by (subst floor_log_eq_powr_iff) (simp_all flip: powr_powi add: powr_add)
  then show ?thesis using assms(3) by (simp add: expo_def)
qed

lemma expo_upper:
  assumes "x \<noteq> 0"
  shows "\<bar>x\<bar> < 2 powi (expo x + 1)"
proof -
  have pos: "0 < \<bar>x\<bar>" using assms by simp
  define k where "k = \<lfloor>log 2 \<bar>x\<bar>\<rfloor>"
  have "\<bar>x\<bar> < 2 powr (of_int k + 1)"
    using floor_log_eq_powr_iff [of "\<bar>x\<bar>" 2 k] pos by (simp add: k_def)
  then have "\<bar>x\<bar> < 2 powi (k + 1)"
    by (metis of_int_1 of_int_add powr_powi)
  also have "\<dots> \<le> 2 powi (expo x + 1)"
    by (intro power_int_increasing) (simp_all add: expo_def k_def)
  finally show ?thesis .
qed

lemma expo_lower:
  assumes "x \<noteq> 0" and "- 1022 < expo x"
  shows "2 powi (expo x) \<le> \<bar>x\<bar>"
proof -
  have pos: "0 < \<bar>x\<bar>" using assms by simp
  have e: "expo x = \<lfloor>log 2 \<bar>x\<bar>\<rfloor>" using assms(2) by (simp add: expo_def max_def split: if_splits)
  have "2 powr (of_int \<lfloor>log 2 \<bar>x\<bar>\<rfloor>) \<le> \<bar>x\<bar>"
    using floor_log_eq_powr_iff [of "\<bar>x\<bar>" 2 "\<lfloor>log 2 \<bar>x\<bar>\<rfloor>"] pos by simp
  then show ?thesis by (simp add: e powr_powi)
qed

lemma expo_mono:
  assumes "0 < \<bar>x\<bar>" and "\<bar>x\<bar> \<le> \<bar>y\<bar>"
  shows "expo x \<le> expo y"
proof -
  have "log 2 \<bar>x\<bar> \<le> log 2 \<bar>y\<bar>" using assms by simp
  then have "\<lfloor>log 2 \<bar>x\<bar>\<rfloor> \<le> \<lfloor>log 2 \<bar>y\<bar>\<rfloor>" by (rule floor_mono)
  then show ?thesis by (simp add: expo_def)
qed

lemma expo_minus [simp]: "expo (- x) = expo x"
  by (simp add: expo_def)

lemma rnd_real_minus: "rnd_real (- x) = - rnd_real x"
  by (simp add: rnd_real_def round_even_minus)

lemma powi_shift: "(2::real) powi a * 2 powi b = 2 powi (a + b)"
  by (simp add: power_int_add)

lemma rnd_real_nonneg: "0 \<le> x \<Longrightarrow> 0 \<le> rnd_real x"
proof -
  assume "0 \<le> x"
  then have "0 \<le> x / 2 powi (expo x - 52)" by simp
  then have "0 \<le> round_even (x / 2 powi (expo x - 52))"
    using round_even_mono [of 0 "x / 2 powi (expo x - 52)"] round_even_of_int [of 0] by simp
  then show ?thesis by (simp add: rnd_real_def)
qed

lemma rnd_real_exact:
  assumes "x / 2 powi (expo x - 52) = of_int n"
  shows "rnd_real x = x"
proof (cases "x = 0")
  case True then show ?thesis by (simp add: rnd_real_def)
next
  case False
  have "of_int n * 2 powi (expo x - 52) = x"
    using assms by (simp add: field_simps)
  then show ?thesis using False by (simp add: rnd_real_def assms)
qed

lemma rnd_real_upper:
  assumes "0 < x"
  shows "rnd_real x \<le> 2 powi (expo x + 1)"
proof -
  let ?q = "2 powi (expo x - 52) :: real"
  have q: "0 < ?q" by simp
  have "x < 2 powi (expo x + 1)" using expo_upper [of x] assms by simp
  then have "x / ?q < 2 powi (expo x + 1) / ?q" using q by (simp add: divide_strict_right_mono)
  also have "2 powi (expo x + 1) / ?q = 2 powi 53"
    by (simp flip: power_int_diff)
  finally have "x / ?q \<le> of_int (2 ^ 53)" by simp
  then have "round_even (x / ?q) \<le> 2 ^ 53"
    using round_even_mono [of "x / ?q" "of_int (2 ^ 53)"] by (simp only: round_even_of_int)
  then have "of_int (round_even (x / ?q)) * ?q \<le> of_int (2 ^ 53) * ?q"
    using q by (intro mult_right_mono) (simp_all del: of_int_power of_int_numeral)
  also have "of_int (2 ^ 53) * ?q = 2 powi 53 * ?q" by simp
  also have "\<dots> = 2 powi (expo x + 1)"
    using powi_shift [of 53 "expo x - 52"] by (simp only: ) (simp add: algebra_simps)
  finally show ?thesis using assms by (simp add: rnd_real_def)
qed

lemma rnd_real_lower:
  assumes "0 < x" and "- 1022 < expo x"
  shows "2 powi (expo x) \<le> rnd_real x"
proof -
  let ?q = "2 powi (expo x - 52) :: real"
  have q: "0 < ?q" by simp
  have "2 powi (expo x) \<le> x" using expo_lower [of x] assms by simp
  then have "2 powi (expo x) / ?q \<le> x / ?q" using q by (simp add: divide_right_mono)
  moreover have "2 powi (expo x) / ?q = 2 powi 52"
    by (simp flip: power_int_diff)
  ultimately have "of_int (2 ^ 52) \<le> x / ?q" by simp
  then have "2 ^ 52 \<le> round_even (x / ?q)"
    using round_even_mono [of "of_int (2 ^ 52)" "x / ?q"] by (simp only: round_even_of_int)
  then have le: "of_int (2 ^ 52) * ?q \<le> of_int (round_even (x / ?q)) * ?q"
    using q by (intro mult_right_mono) (simp_all del: of_int_power of_int_numeral)
  have "2 powi (expo x) = of_int (2 ^ 52) * ?q"
    using powi_shift [of 52 "expo x - 52"] by simp
  also note le
  finally have "2 powi (expo x) \<le> of_int (round_even (x / ?q)) * ?q" .
  moreover have "rnd_real x = of_int (round_even (x / ?q)) * ?q"
    using assms by (simp add: rnd_real_def)
  ultimately show ?thesis by (simp only: )
qed

lemma rnd_real_mono_pos:
  assumes "0 < x" and "x \<le> y"
  shows "rnd_real x \<le> rnd_real y"
proof (cases "expo x = expo y")
  case True
  let ?q = "2 powi (expo y - 52) :: real"
  have "x / ?q \<le> y / ?q" using assms by (simp add: divide_right_mono)
  then have "round_even (x / ?q) \<le> round_even (y / ?q)" by (rule round_even_mono)
  then have "of_int (round_even (x / ?q)) * ?q \<le> of_int (round_even (y / ?q)) * ?q"
    by (intro mult_right_mono) simp_all
  then show ?thesis using assms True by (simp add: rnd_real_def)
next
  case False
  have "expo x \<le> expo y" using assms by (intro expo_mono) simp_all
  with False have lt: "expo x + 1 \<le> expo y" by simp
  then have big: "- 1022 < expo y" by (simp add: expo_def)
  have "rnd_real x \<le> 2 powi (expo x + 1)" using assms(1) by (rule rnd_real_upper)
  also have "\<dots> \<le> 2 powi (expo y)" using lt by (intro power_int_increasing) simp_all
  also have "\<dots> \<le> rnd_real y" using assms big by (intro rnd_real_lower) simp_all
  finally show ?thesis .
qed

lemma rnd_real_mono:
  assumes "x \<le> y"
  shows "rnd_real x \<le> rnd_real y"
proof -
  consider "0 < x" | "x \<le> 0" "0 \<le> y" | "y < 0" using assms by linarith
  then show ?thesis
  proof cases
    case 1
    then show ?thesis using assms by (rule rnd_real_mono_pos)
  next
    case 2
    have "rnd_real x \<le> 0" using rnd_real_nonneg [of "- x"] 2 by (simp add: rnd_real_minus)
    also have "0 \<le> rnd_real y" using 2 by (simp add: rnd_real_nonneg)
    finally show ?thesis .
  next
    case 3
    have "rnd_real (- y) \<le> rnd_real (- x)" using 3 assms by (intro rnd_real_mono_pos) simp_all
    then show ?thesis by (simp add: rnd_real_minus)
  qed
qed

lemma rnd_real_at:
  assumes "2 powi e \<le> \<bar>x\<bar>" and "\<bar>x\<bar> < 2 powi (e + 1)" and "- 1022 \<le> e"
  shows "rnd_real x = of_int (round_even (x / 2 powi (e - 52))) * 2 powi (e - 52)"
proof -
  have e: "expo x = e" using assms by (rule expo_eq)
  have "(0::real) < 2 powi e" by simp
  then have "0 < \<bar>x\<bar>" using assms(1) by linarith
  then have "x \<noteq> 0" by simp
  with e show ?thesis by (simp add: rnd_real_def)
qed

lemma rnd_real_of_int:
  assumes "\<bar>n\<bar> < 2 ^ 53"
  shows "rnd_real (of_int n) = of_int n"
proof (cases "n = 0")
  case True then show ?thesis by (simp add: rnd_real_def)
next
  case False
  let ?x = "of_int n :: real"
  let ?E = "expo ?x"
  have E: "?E \<le> 52"
  proof (rule ccontr)
    assume "\<not> ?E \<le> 52"
    then have big: "53 \<le> ?E" by simp
    then have "2 powi ?E \<le> \<bar>?x\<bar>" using False by (intro expo_lower) simp_all
    moreover have "(2::real) powi 53 \<le> 2 powi ?E"
      using big by (intro power_int_increasing) simp_all
    ultimately have "(2::real) ^ 53 \<le> \<bar>?x\<bar>" by simp
    then have "(2::int) ^ 53 \<le> \<bar>n\<bar>"
      by (metis of_int_abs of_int_le_iff of_int_numeral of_int_power)
    with assms show False by simp
  qed
  define k where "k = nat (52 - ?E)"
  have k: "52 - ?E = int k" using E by (simp add: k_def)
  have "?x / 2 powi (?E - 52) = ?x * 2 powi (52 - ?E)"
    by (simp add: power_int_diff field_simps)
  also have "\<dots> = ?x * 2 ^ k" by (simp add: k)
  also have "\<dots> = of_int (n * 2 ^ k)" by simp
  finally show ?thesis by (rule rnd_real_exact)
qed

lemma rnd_of_int:
  assumes "\<bar>n\<bar> < 2 ^ 53"
  shows "rnd (of_int n) = Fin (of_int n)"
proof -
  have "\<bar>of_int n :: real\<bar> < 2 ^ 53"
    using assms by (metis of_int_abs of_int_less_iff of_int_numeral of_int_power)
  moreover have "(2::real) ^ 53 < 2 ^ 1024" by simp
  ultimately have "\<bar>of_int n :: real\<bar> < huge" unfolding huge_def by linarith
  then show ?thesis
    by (simp add: rnd_def rnd_real_of_int [OF assms] Let_def abs_less_iff)
qed

lemma rnd_numeral [simp]:
  "numeral k < (2::int) ^ 53 \<Longrightarrow> rnd (numeral k) = Fin (numeral k)"
  "numeral k < (2::int) ^ 53 \<Longrightarrow> rnd (- numeral k) = Fin (- numeral k)"
  using rnd_of_int [of "numeral k"] rnd_of_int [of "- numeral k"] by simp_all

lemma rnd_0 [simp]: "rnd 0 = Fin 0"
  using rnd_of_int [of 0] by simp

lemma rnd_1 [simp]: "rnd 1 = Fin 1" "rnd (- 1) = Fin (- 1)"
  using rnd_of_int [of 1] rnd_of_int [of "- 1"] by simp_all

lemma rnd_real_huge: "rnd_real huge = huge"
proof -
  have "expo huge = 1024"
    unfolding huge_def by (rule expo_eq) simp_all
  then have "huge / 2 powi (expo huge - 52) = of_int (2 ^ 52)"
    by (simp add: huge_def)
  then show ?thesis by (rule rnd_real_exact)
qed

lemma rnd_overflow:
  assumes "huge \<le> x"
  shows "rnd x = PInf"
proof -
  have "rnd_real huge \<le> rnd_real x" using assms by (rule rnd_real_mono)
  then show ?thesis by (simp add: rnd_def rnd_real_huge Let_def)
qed

lemma huge_pos: "0 < huge"
  by (simp add: huge_def)

lemma tolerance_literal: "tolerance = rnd (1 / 10 ^ 9)"
proof -
  let ?x = "1 / 10 ^ 9 :: real"
  have "rnd_real ?x = of_int (round_even (?x / 2 powi (- 30 - 52))) * 2 powi (- 30 - 52)"
    by (rule rnd_real_at) simp_all
  also have "round_even (?x / 2 powi (- 30 - 52)) = 4835703278458517"
    by (simp add: round_even_def Let_def)
  finally have "rnd_real ?x = 4835703278458517 / 2 ^ 82" by simp
  then show ?thesis by (simp add: rnd_def Let_def huge_def tolerance_def)
qed

section \<open>The nearest-neighbour scans\<close>

lemma flt_trans: "flt a b \<Longrightarrow> flt b c \<Longrightarrow> flt a c"
  by (cases a; cases b; cases c) simp_all

lemma flt_not_fle: "flt a b \<Longrightarrow> \<not> fle b a"
  by (cases a; cases b) simp_all

lemma not_flt_fle: "\<not> flt x b \<Longrightarrow> flt c b \<Longrightarrow> \<not> fle x c"
  by (cases x; cases b; cases c) simp_all

lemma first_min_from:
  "first_min f xs (b, v) = (b', v') \<Longrightarrow>
     (b' = b \<and> v' = v \<and> (\<forall>x\<in>set xs. \<not> flt (f x) v)) \<or>
     (\<exists>pre e post. xs = pre @ e # post \<and> b' = Some e \<and> v' = f e \<and> flt (f e) v \<and>
        (\<forall>x\<in>set pre. \<not> fle (f x) (f e)) \<and> (\<forall>x\<in>set post. \<not> flt (f x) (f e)))"
proof (induction xs arbitrary: b v)
  case Nil
  then show ?case by simp
next
  case (Cons x xs)
  show ?case
  proof (cases "flt (f x) v")
    case True
    with Cons.prems have run: "first_min f xs (Some x, f x) = (b', v')" by simp
    from Cons.IH [OF run] show ?thesis
    proof
      assume "b' = Some x \<and> v' = f x \<and> (\<forall>y\<in>set xs. \<not> flt (f y) (f x))"
      then have "x # xs = [] @ x # xs \<and> b' = Some x \<and> v' = f x \<and> flt (f x) v \<and>
          (\<forall>y\<in>set []. \<not> fle (f y) (f x)) \<and> (\<forall>y\<in>set xs. \<not> flt (f y) (f x))"
        using True by simp
      then show ?thesis by blast
    next
      assume "\<exists>pre e post. xs = pre @ e # post \<and> b' = Some e \<and> v' = f e \<and> flt (f e) (f x) \<and>
          (\<forall>y\<in>set pre. \<not> fle (f y) (f e)) \<and> (\<forall>y\<in>set post. \<not> flt (f y) (f e))"
      then obtain pre e post where dec: "xs = pre @ e # post" "b' = Some e" "v' = f e"
          "flt (f e) (f x)" "\<forall>y\<in>set pre. \<not> fle (f y) (f e)" "\<forall>y\<in>set post. \<not> flt (f y) (f e)"
        by blast
      have "flt (f e) v" using dec(4) True by (rule flt_trans)
      moreover have "\<not> fle (f x) (f e)" using dec(4) by (rule flt_not_fle)
      ultimately have "x # xs = (x # pre) @ e # post \<and> b' = Some e \<and> v' = f e \<and> flt (f e) v \<and>
          (\<forall>y\<in>set (x # pre). \<not> fle (f y) (f e)) \<and> (\<forall>y\<in>set post. \<not> flt (f y) (f e))"
        using dec by simp
      then show ?thesis by blast
    qed
  next
    case False
    with Cons.prems have run: "first_min f xs (b, v) = (b', v')" by simp
    from Cons.IH [OF run] show ?thesis
    proof
      assume "b' = b \<and> v' = v \<and> (\<forall>y\<in>set xs. \<not> flt (f y) v)"
      then show ?thesis using False by simp
    next
      assume "\<exists>pre e post. xs = pre @ e # post \<and> b' = Some e \<and> v' = f e \<and> flt (f e) v \<and>
          (\<forall>y\<in>set pre. \<not> fle (f y) (f e)) \<and> (\<forall>y\<in>set post. \<not> flt (f y) (f e))"
      then obtain pre e post where dec: "xs = pre @ e # post" "b' = Some e" "v' = f e"
          "flt (f e) v" "\<forall>y\<in>set pre. \<not> fle (f y) (f e)" "\<forall>y\<in>set post. \<not> flt (f y) (f e)"
        by blast
      have "\<not> fle (f x) (f e)" using False dec(4) by (rule not_flt_fle)
      then have "x # xs = (x # pre) @ e # post \<and> b' = Some e \<and> v' = f e \<and> flt (f e) v \<and>
          (\<forall>y\<in>set (x # pre). \<not> fle (f y) (f e)) \<and> (\<forall>y\<in>set post. \<not> flt (f y) (f e))"
        using dec by simp
      then show ?thesis by blast
    qed
  qed
qed

text \<open>From the start values of the loops: nothing found, or the first least key.\<close>

lemma first_min_start:
  "(first_min f xs (None, PInf) = (None, PInf) \<and> (\<forall>x\<in>set xs. \<not> flt (f x) PInf)) \<or>
   (\<exists>pre e post. xs = pre @ e # post \<and> first_min f xs (None, PInf) = (Some e, f e) \<and>
      flt (f e) PInf \<and>
      (\<forall>x\<in>set pre. \<not> fle (f x) (f e)) \<and> (\<forall>x\<in>set post. \<not> flt (f x) (f e)))"
proof -
  obtain b' v' where r: "first_min f xs (None, PInf) = (b', v')" by (cases "first_min f xs (None, PInf)")
  from first_min_from [OF r] show ?thesis using r by auto
qed

lemma first_min_append:
  "first_min f (xs @ ys) best = first_min f ys (first_min f xs best)"
  by (induction xs arbitrary: best) (auto split: prod.splits)

lemma nearest_exit_scan_first_min:
  "nearest_exit_scan hyp p exs best
     = first_min (\<lambda>e. distance hyp p (exit_position e)) exs best"
  by (induction exs arbitrary: best) (auto simp: Let_def split: prod.splits)

lemma pack_key: "\<exists>c. pack (r, d, v) = (c, v)"
  by (cases "(r, d, v)" rule: pack.cases) auto

lemma scan_doors_first_min:
  "pack (scan_doors hyp pos room ds best) =
     first_min (\<lambda>c. distance hyp pos (snd c)) (map (Pair room) ds) (pack best)"
proof (induction ds arbitrary: best)
  case Nil
  then show ?case by simp
next
  case (Cons d ds)
  obtain r0 d0 v where best: "best = (r0, d0, v)" by (cases best)
  obtain c where c: "pack (r0, d0, v) = (c, v)" using pack_key by blast
  show ?case
    using Cons.IH [of "(Some room, Some d, distance hyp pos d)"] Cons.IH [of "(r0, d0, v)"]
    by (simp add: best c Let_def)
qed

lemma door_positions_access_points: "door_positions h room = access_points h room"
  by (simp add: door_positions_def access_points_def get_door_positions_def split: list.splits)

lemma scan_rooms_first_min:
  "pack (scan_rooms hyp h pos rooms_left best) =
     first_min (\<lambda>c. distance hyp pos (snd c)) (candidates h rooms_left) (pack best)"
  by (induction rooms_left arbitrary: best)
     (simp_all add: candidates_def first_min_append scan_doors_first_min
        door_positions_access_points)

lemma candidates_nonempty: "rooms_left \<noteq> [] \<Longrightarrow> candidates h rooms_left \<noteq> []"
  by (cases rooms_left) (auto simp: candidates_def access_points_def split: list.splits)

lemma candidates_fst: "c \<in> set (candidates h rooms_left) \<Longrightarrow> fst c \<in> set rooms_left"
  by (auto simp: candidates_def)

text \<open>The scan of the rooms assigns \<open>best_room\<close> and \<open>best_door\<close> together.\<close>

lemma scan_doors_paired:
  "(fst best = None) = (fst (snd best) = None) \<Longrightarrow>
   (fst (scan_doors hyp pos room ds best) = None)
     = (fst (snd (scan_doors hyp pos room ds best)) = None)"
  by (induction ds arbitrary: best) (auto simp: Let_def split: prod.splits)

lemma scan_rooms_paired:
  "(fst best = None) = (fst (snd best) = None) \<Longrightarrow>
   (fst (scan_rooms hyp h pos rooms_left best) = None)
     = (fst (snd (scan_rooms hyp h pos rooms_left best)) = None)"
  by (induction rooms_left arbitrary: best) (auto simp: scan_doors_paired)

section \<open>The unabled-evacuation timing model\<close>

lemma nearest_exit_cases:
  assumes "exits \<noteq> []"
  shows "(nearest_exit hyp p exits = (None, PInf) \<and>
          (\<forall>x\<in>set exits. \<not> flt (distance hyp p (exit_position x)) PInf)) \<or>
         (\<exists>pre ex post. exits = pre @ ex # post \<and>
            nearest_exit hyp p exits = (Some ex, distance hyp p (exit_position ex)) \<and>
            flt (distance hyp p (exit_position ex)) PInf \<and>
            (\<forall>x\<in>set pre. \<not> fle (distance hyp p (exit_position x))
                                 (distance hyp p (exit_position ex))) \<and>
            (\<forall>x\<in>set post. \<not> flt (distance hyp p (exit_position x))
                                  (distance hyp p (exit_position ex))))"
  using first_min_start [of "\<lambda>e. distance hyp p (exit_position e)" exits] assms
  by (simp add: nearest_exit_def nearest_exit_scan_first_min)

lemma far_coordinate: "rnd (- far) = Fin (- far)"
proof -
  let ?x = "- (3 * 2 ^ 1022) :: real"
  have e: "expo ?x = 1023" by (rule expo_eq) simp_all
  have "?x / 2 powi (expo ?x - 52) = of_int (- (3 * 2 ^ 51))"
    unfolding e by simp
  then have "rnd_real ?x = ?x" by (rule rnd_real_exact)
  then have "rnd ?x = Fin ?x" by (simp add: rnd_def Let_def huge_def)
  then show ?thesis by (simp only: far_def)
qed

lemma far_distance:
  "distance hypot_cr (Fin 0, Fin 0) (Fin far, Fin far) = PInf"
proof -
  have "huge\<^sup>2 \<le> (- far)\<^sup>2 + (- far)\<^sup>2" by (simp add: huge_def far_def)
  then have "huge \<le> sqrt ((- far)\<^sup>2 + (- far)\<^sup>2)"
    by (rule real_le_rsqrt)
  then have "rnd (sqrt ((- far)\<^sup>2 + (- far)\<^sup>2)) = PInf" by (rule rnd_overflow)
  then show ?thesis
    by (simp only: distance_def fsub_def fst_conv snd_conv fneg.simps fadd.simps add_0
          far_coordinate hypot_cr.simps)
qed

lemma positive_speed: "flt (Fin 0) s \<Longrightarrow> \<not> fle s (Fin 0) \<and> s \<noteq> Fin 0"
  by (cases s) auto

text \<open>
  C1, as the code has it. The distance of two points is \<open>hypot\<close> of the float
  differences of their coordinates, and the position of an exit is its \<open>(x, y)\<close>. For
  an unabled count \<open>U \<ge> 1\<close>, a door position \<open>p\<close>, a non-empty exit list and a
  speed \<open>s > 0\<close>: if no exit has a float distance below infinity, the model returns
  zero time and the door position. Otherwise let \<open>d\<close> be
  the float distance of the nearest exit, the first one in list order whose distance is
  least. The extra time is \<open>((3U - 1) * d) / s\<close> in float arithmetic, which for
  \<open>U = 1\<close> is \<open>(2 * d) / s\<close>, the value of the other branch; the final position is
  that exit's position; and the call raises \<open>OverflowError\<close> when \<open>3U - 1\<close> is too
  large for a float.
\<close>

theorem unabled_evac_time_float_form:
  assumes "1 \<le> U" and "exits \<noteq> []" and "flt (Fin 0) s"
  shows "distance hyp p q = hyp (fsub (fst p) (fst q)) (fsub (snd p) (snd q)) \<and>
         exit_position x = (exit_x x, exit_y x) \<and>
         (((\<forall>x\<in>set exits. \<not> flt (distance hyp p (exit_position x)) PInf) \<and>
           unabled_evac_time hyp U p exits s = Inr (Fin 0, p)) \<or>
          (\<exists>pre ex post. exits = pre @ ex # post \<and>
             flt (distance hyp p (exit_position ex)) PInf \<and>
             (\<forall>x\<in>set pre. \<not> fle (distance hyp p (exit_position x))
                                  (distance hyp p (exit_position ex))) \<and>
             (\<forall>x\<in>set post. \<not> flt (distance hyp p (exit_position x))
                                   (distance hyp p (exit_position ex))) \<and>
             unabled_evac_time hyp U p exits s =
               (case int_to_float (3 * U - 1) of
                  Inl e \<Rightarrow> Inl e
                | Inr k \<Rightarrow> Inr (fdiv_nz (fmul k (distance hyp p (exit_position ex))) s,
                                exit_position ex)) \<and>
             (U = 1 \<longrightarrow> int_to_float (3 * U - 1) = Inr (Fin 2))))"
proof (rule conjI [OF _ conjI])
  show "distance hyp p q = hyp (fsub (fst p) (fst q)) (fsub (snd p) (snd q))"
    by (simp add: distance_def)
next
  show "exit_position x = (exit_x x, exit_y x)"
    by (simp add: exit_position_def)
next
  let ?d = "\<lambda>x. distance hyp p (exit_position x)"
  let ?thesis = "((\<forall>x\<in>set exits. \<not> flt (?d x) PInf) \<and>
           unabled_evac_time hyp U p exits s = Inr (Fin 0, p)) \<or>
          (\<exists>pre ex post. exits = pre @ ex # post \<and>
             flt (?d ex) PInf \<and>
             (\<forall>x\<in>set pre. \<not> fle (?d x) (?d ex)) \<and>
             (\<forall>x\<in>set post. \<not> flt (?d x) (?d ex)) \<and>
             unabled_evac_time hyp U p exits s =
               (case int_to_float (3 * U - 1) of
                  Inl e \<Rightarrow> Inl e
                | Inr k \<Rightarrow> Inr (fdiv_nz (fmul k (?d ex)) s, exit_position ex)) \<and>
             (U = 1 \<longrightarrow> int_to_float (3 * U - 1) = Inr (Fin 2)))"
  have guard: "\<not> (U \<le> 0 \<or> fle s (Fin 0) \<or> exits = [])"
    using assms positive_speed by auto
  have s0: "s \<noteq> Fin 0" using assms(3) positive_speed by blast
  have two: "int_to_float 2 = Inr (Fin 2)" by (simp add: int_to_float_def)
  from nearest_exit_cases [OF assms(2), of hyp p] show ?thesis
  proof
    assume none: "nearest_exit hyp p exits = (None, PInf) \<and> (\<forall>x\<in>set exits. \<not> flt (?d x) PInf)"
    then have "unabled_evac_time hyp U p exits s = Inr (Fin 0, p)"
      using guard by (simp add: unabled_evac_time_def)
    with none show ?thesis by blast
  next
    assume "\<exists>pre ex post. exits = pre @ ex # post \<and>
        nearest_exit hyp p exits = (Some ex, ?d ex) \<and> flt (?d ex) PInf \<and>
        (\<forall>x\<in>set pre. \<not> fle (?d x) (?d ex)) \<and> (\<forall>x\<in>set post. \<not> flt (?d x) (?d ex))"
    then obtain pre ex post where dec: "exits = pre @ ex # post"
      and ne: "nearest_exit hyp p exits = (Some ex, ?d ex)"
      and fin: "flt (?d ex) PInf"
      and before: "\<forall>x\<in>set pre. \<not> fle (?d x) (?d ex)"
      and after: "\<forall>x\<in>set post. \<not> flt (?d x) (?d ex)"
      by blast
    have val: "unabled_evac_time hyp U p exits s =
        (case int_to_float (3 * U - 1) of
           Inl e \<Rightarrow> Inl e
         | Inr k \<Rightarrow> Inr (fdiv_nz (fmul k (?d ex)) s, exit_position ex))"
    proof (cases "U = 1")
      case True
      then show ?thesis
        using guard ne s0 two
        by (simp add: unabled_evac_time_def Let_def and_then_def int_times_def fdiv_def)
    next
      case False
      then show ?thesis
        using guard ne s0
        by (simp add: unabled_evac_time_def Let_def and_then_def int_times_def fdiv_def
              split: sum.splits)
    qed
    have one: "U = 1 \<longrightarrow> int_to_float (3 * U - 1) = Inr (Fin 2)" using two by simp
    have "exits = pre @ ex # post \<and> flt (?d ex) PInf \<and>
        (\<forall>x\<in>set pre. \<not> fle (?d x) (?d ex)) \<and> (\<forall>x\<in>set post. \<not> flt (?d x) (?d ex)) \<and>
        unabled_evac_time hyp U p exits s =
          (case int_to_float (3 * U - 1) of
             Inl e \<Rightarrow> Inl e
           | Inr k \<Rightarrow> Inr (fdiv_nz (fmul k (?d ex)) s, exit_position ex)) \<and>
        (U = 1 \<longrightarrow> int_to_float (3 * U - 1) = Inr (Fin 2))"
      using dec fin before after val one by blast
    then show ?thesis by blast
  qed
qed

text \<open>
  C8. With an unabled count of at most zero, or a speed of at most zero, or no exits, the
  model returns zero extra time and the door position it was given; so a second
  computation for a room whose unabled count the driver has already set to zero adds no
  time and leaves the position at the door.
\<close>

theorem unabled_evac_time_guard:
  "(num_unabled \<le> 0 \<or> fle speed (Fin 0) \<or> exits = [] \<longrightarrow>
      unabled_evac_time hyp num_unabled p exits speed = Inr (Fin 0, p)) \<and>
   unabled_evac_time hyp (unabled (room_occupants (zero_unabled h room) room)) p exits speed
     = Inr (Fin 0, p)"
  by (simp add: unabled_evac_time_def zero_unabled_def room_occupants_def Let_def)

lemmas scenario_defs = scenario_room_def scenario_heap_def scenario_exit_def
  scenario_responder_def

lemma int_to_float_small [simp]:
  "numeral k < (2::int) ^ 53 \<Longrightarrow> int_to_float (numeral k) = Inr (Fin (numeral k))"
  "int_to_float 0 = Inr (Fin 0)"
  "int_to_float 1 = Inr (Fin 1)"
  by (simp_all add: int_to_float_def)

lemma int_to_float_overflow: "huge \<le> of_int n \<Longrightarrow> int_to_float n = Inl OverflowError"
  by (simp add: int_to_float_def rnd_overflow)

lemma scenario_distances [simp]:
  "distance hypot_cr (Fin 0, Fin 0) (Fin 4, Fin 0) = Fin 4"
  "distance hypot_cr (Fin 0, Fin 0) (Fin 2, Fin 0) = Fin 2"
  "distance hypot_cr (Fin 2, Fin 0) (Fin 4, Fin 0) = Fin 2"
  "distance hypot_cr (Fin 0, Fin 0) (Fin 0, Fin 0) = Fin 0"
  by (simp_all add: distance_def fsub_def)

theorem unabled_evac_time_float_form_witness:
  "(1::int) \<le> 3 \<and> [scenario_exit] \<noteq> [] \<and> flt (Fin 0) (Fin 2) \<and>
   unabled_evac_time hypot_cr 3 (Fin 0, Fin 0) [scenario_exit] (Fin 2)
     = Inr (Fin 16, (Fin 4, Fin 0))"
proof -
  let ?d = "\<lambda>x. distance hypot_cr (Fin 0, Fin 0) (exit_position x)"
  have h1: "(1::int) \<le> 3" and h2: "[scenario_exit] \<noteq> []" and h3: "flt (Fin 0) (Fin 2)"
    by simp_all
  have d: "?d scenario_exit = Fin 4"
    by (simp add: exit_position_def scenario_exit_def)
  have "\<not> (\<forall>x\<in>set [scenario_exit]. \<not> flt (?d x) PInf)" by (simp add: d)
  with unabled_evac_time_float_form [OF h1 h2 h3, of hypot_cr "(Fin 0, Fin 0)"]
  obtain pre ex post where dec: "[scenario_exit] = pre @ ex # post"
    and val: "unabled_evac_time hypot_cr 3 (Fin 0, Fin 0) [scenario_exit] (Fin 2) =
        (case int_to_float (3 * 3 - 1) of
           Inl e \<Rightarrow> Inl e
         | Inr k \<Rightarrow> Inr (fdiv_nz (fmul k (?d ex)) (Fin 2), exit_position ex))"
    by blast
  from dec have ex: "ex = scenario_exit" by (cases pre) auto
  have "unabled_evac_time hypot_cr 3 (Fin 0, Fin 0) [scenario_exit] (Fin 2)
      = Inr (Fin 16, (Fin 4, Fin 0))"
    unfolding val ex d by (simp add: exit_position_def scenario_exit_def)
  with h1 h2 h3 show ?thesis by blast
qed

text \<open>
  The claim fails for a count too large for a float: the product \<open>(3U - 1) * d\<close>
  raises instead of giving a time. It fails as well for an exit so far that its distance
  is not a finite float: the call returns zero time and the door position, although the
  exit list is not empty.
\<close>

theorem unabled_evac_time_overflow_counterexample:
  "unabled_evac_time hypot_cr (2 ^ 1024) (Fin 0, Fin 0) [scenario_exit] (Fin 1)
     = Inl OverflowError \<and>
   unabled_evac_time hypot_cr 1 (Fin 0, Fin 0) [far_exit] (Fin 1)
     = Inr (Fin 0, (Fin 0, Fin 0))"
proof -
  have "huge \<le> of_int (3 * 2 ^ 1024 - 1)" by (simp add: huge_def)
  then have "int_to_float (3 * 2 ^ 1024 - 1) = Inl OverflowError"
    by (rule int_to_float_overflow)
  then have "unabled_evac_time hypot_cr (2 ^ 1024) (Fin 0, Fin 0) [scenario_exit] (Fin 1)
     = Inl OverflowError"
    by (simp add: unabled_evac_time_def nearest_exit_def exit_position_def scenario_exit_def
          Let_def and_then_def int_times_def)
  moreover have "unabled_evac_time hypot_cr 1 (Fin 0, Fin 0) [far_exit] (Fin 1)
     = Inr (Fin 0, (Fin 0, Fin 0))"
    by (simp add: unabled_evac_time_def nearest_exit_def exit_position_def far_exit_def
          far_distance Let_def)
  ultimately show ?thesis by (rule conjI)
qed

section \<open>The assignment policy\<close>

lemma pack_None: "pack (r, d, v) = (None, w) \<Longrightarrow> (r = None) = (d = None) \<Longrightarrow> r = None \<and> v = w"
  by (cases "(r, d, v)" rule: pack.cases) auto

lemma pack_Some: "pack (r, d, v) = (Some (room, door), w) \<Longrightarrow> r = Some room \<and> d = Some door \<and> v = w"
  by (cases "(r, d, v)" rule: pack.cases) auto

lemma scan_rooms_cases:
  "(scan_rooms hyp h pos rooms_left (None, None, PInf) = (None, None, PInf) \<and>
    (\<forall>c\<in>set (candidates h rooms_left). \<not> flt (distance hyp pos (snd c)) PInf)) \<or>
   (\<exists>pre room door post. candidates h rooms_left = pre @ (room, door) # post \<and>
      scan_rooms hyp h pos rooms_left (None, None, PInf)
        = (Some room, Some door, distance hyp pos door) \<and>
      flt (distance hyp pos door) PInf \<and>
      (\<forall>c\<in>set pre. \<not> fle (distance hyp pos (snd c)) (distance hyp pos door)) \<and>
      (\<forall>c\<in>set post. \<not> flt (distance hyp pos (snd c)) (distance hyp pos door)))"
proof -
  let ?f = "\<lambda>c::nat \<times> Point. distance hyp pos (snd c)"
  let ?scan = "scan_rooms hyp h pos rooms_left (None, None, PInf)"
  obtain r d v where scan: "?scan = (r, d, v)" by (cases ?scan)
  have paired: "(r = None) = (d = None)"
    using scan_rooms_paired [of "(None, None, PInf)" hyp h pos rooms_left] scan by simp
  have pk: "pack (r, d, v) = first_min ?f (candidates h rooms_left) (None, PInf)"
    using scan_rooms_first_min [of hyp h pos rooms_left "(None, None, PInf)"] scan by simp
  from first_min_start [of ?f "candidates h rooms_left"] show ?thesis
  proof
    assume a: "first_min ?f (candidates h rooms_left) (None, PInf) = (None, PInf) \<and>
        (\<forall>x\<in>set (candidates h rooms_left). \<not> flt (?f x) PInf)"
    then have "pack (r, d, v) = (None, PInf)" using pk by simp
    from pack_None [OF this paired] paired have "r = None \<and> d = None \<and> v = PInf" by simp
    with a scan show ?thesis by simp
  next
    assume "\<exists>pre e post. candidates h rooms_left = pre @ e # post \<and>
        first_min ?f (candidates h rooms_left) (None, PInf) = (Some e, ?f e) \<and>
        flt (?f e) PInf \<and> (\<forall>x\<in>set pre. \<not> fle (?f x) (?f e)) \<and>
        (\<forall>x\<in>set post. \<not> flt (?f x) (?f e))"
    then obtain pre e post where dec: "candidates h rooms_left = pre @ e # post"
      and fm: "first_min ?f (candidates h rooms_left) (None, PInf) = (Some e, ?f e)"
      and fin: "flt (?f e) PInf"
      and before: "\<forall>x\<in>set pre. \<not> fle (?f x) (?f e)"
      and after: "\<forall>x\<in>set post. \<not> flt (?f x) (?f e)"
      by blast
    obtain room door where e: "e = (room, door)" by (cases e)
    have "pack (r, d, v) = (Some (room, door), distance hyp pos door)"
      using pk fm e by simp
    from pack_Some [OF this] have "?scan = (Some room, Some door, distance hyp pos door)"
      using scan by simp
    then have "candidates h rooms_left = pre @ (room, door) # post \<and>
      ?scan = (Some room, Some door, distance hyp pos door) \<and>
      flt (distance hyp pos door) PInf \<and>
      (\<forall>c\<in>set pre. \<not> fle (distance hyp pos (snd c)) (distance hyp pos door)) \<and>
      (\<forall>c\<in>set post. \<not> flt (distance hyp pos (snd c)) (distance hyp pos door))"
      using dec fin before after e by simp
    then show ?thesis by blast
  qed
qed

text \<open>
  C5, as the code has it. For an empty list the policy returns \<open>(None, None, 0)\<close>.
  The distance of two points is \<open>hypot\<close> of the float differences of their
  coordinates. The candidates of a room are the \<open>(x, y)\<close> of its doors, or the centre
  of its rectangle (half the float sum of the corners, coordinate by coordinate) if it has
  no doors. For a
  responder at \<open>pos\<close>, a non-empty list of rooms and a speed \<open>s > 0\<close>: if no
  candidate has a float distance below infinity, the policy returns \<open>(None, None, 0)\<close>
  as well; otherwise it returns the room and access point of the first candidate, in the
  order rooms then doors, whose float distance is least, with travel time distance over
  speed in float arithmetic. The function is a query on the store: it returns no store.
\<close>

theorem choose_nearest_room_float_form:
  "choose_nearest_room hyp h r [] s = Inr (None, None, Fin 0) \<and>
   distance hyp pos q = hyp (fsub (fst pos) (fst q)) (fsub (snd pos) (snd q)) \<and>
   access_points h room =
     (if doors (room_objs h room) = []
      then [(fdiv_nz (fadd (fst (bottom_left (shape (room_objs h room))))
                           (fst (top_right (shape (room_objs h room))))) (Fin 2),
             fdiv_nz (fadd (snd (bottom_left (shape (room_objs h room))))
                           (snd (top_right (shape (room_objs h room))))) (Fin 2))]
      else map (\<lambda>d. (door_x d, door_y d)) (doors (room_objs h room))) \<and>
   (position r = Some pos \<and> rooms_left \<noteq> [] \<and> flt (Fin 0) s \<longrightarrow>
     ((\<forall>c\<in>set (candidates h rooms_left). \<not> flt (distance hyp pos (snd c)) PInf) \<and>
      choose_nearest_room hyp h r rooms_left s = Inr (None, None, Fin 0)) \<or>
     (\<exists>pre room door post. candidates h rooms_left = pre @ (room, door) # post \<and>
        flt (distance hyp pos door) PInf \<and>
        (\<forall>c\<in>set pre. \<not> fle (distance hyp pos (snd c)) (distance hyp pos door)) \<and>
        (\<forall>c\<in>set post. \<not> flt (distance hyp pos (snd c)) (distance hyp pos door)) \<and>
        choose_nearest_room hyp h r rooms_left s
          = Inr (Some room, Some door, fdiv_nz (distance hyp pos door) s)))"
proof (rule conjI [OF _ conjI [OF _ conjI]]; (rule impI)?)
  show "choose_nearest_room hyp h r [] s = Inr (None, None, Fin 0)"
    by (simp add: choose_nearest_room_def)
next
  show "distance hyp pos q = hyp (fsub (fst pos) (fst q)) (fsub (snd pos) (snd q))"
    by (simp add: distance_def)
next
  show "access_points h room =
     (if doors (room_objs h room) = []
      then [(fdiv_nz (fadd (fst (bottom_left (shape (room_objs h room))))
                           (fst (top_right (shape (room_objs h room))))) (Fin 2),
             fdiv_nz (fadd (snd (bottom_left (shape (room_objs h room))))
                           (snd (top_right (shape (room_objs h room))))) (Fin 2))]
      else map (\<lambda>d. (door_x d, door_y d)) (doors (room_objs h room)))"
    by (simp add: access_points_def center_def door_position_def split: list.splits)
next
  assume a: "position r = Some pos \<and> rooms_left \<noteq> [] \<and> flt (Fin 0) s"
  then have s0: "s \<noteq> Fin 0" using positive_speed by blast
  from scan_rooms_cases [of hyp h pos rooms_left]
  show "((\<forall>c\<in>set (candidates h rooms_left). \<not> flt (distance hyp pos (snd c)) PInf) \<and>
      choose_nearest_room hyp h r rooms_left s = Inr (None, None, Fin 0)) \<or>
     (\<exists>pre room door post. candidates h rooms_left = pre @ (room, door) # post \<and>
        flt (distance hyp pos door) PInf \<and>
        (\<forall>c\<in>set pre. \<not> fle (distance hyp pos (snd c)) (distance hyp pos door)) \<and>
        (\<forall>c\<in>set post. \<not> flt (distance hyp pos (snd c)) (distance hyp pos door)) \<and>
        choose_nearest_room hyp h r rooms_left s
          = Inr (Some room, Some door, fdiv_nz (distance hyp pos door) s))"
  proof
    assume none: "scan_rooms hyp h pos rooms_left (None, None, PInf) = (None, None, PInf) \<and>
        (\<forall>c\<in>set (candidates h rooms_left). \<not> flt (distance hyp pos (snd c)) PInf)"
    then have "choose_nearest_room hyp h r rooms_left s = Inr (None, None, Fin 0)"
      using a by (simp add: choose_nearest_room_def)
    with none show ?thesis by blast
  next
    assume "\<exists>pre room door post. candidates h rooms_left = pre @ (room, door) # post \<and>
      scan_rooms hyp h pos rooms_left (None, None, PInf)
        = (Some room, Some door, distance hyp pos door) \<and>
      flt (distance hyp pos door) PInf \<and>
      (\<forall>c\<in>set pre. \<not> fle (distance hyp pos (snd c)) (distance hyp pos door)) \<and>
      (\<forall>c\<in>set post. \<not> flt (distance hyp pos (snd c)) (distance hyp pos door))"
    then obtain pre room door post where dec: "candidates h rooms_left = pre @ (room, door) # post"
      and scan: "scan_rooms hyp h pos rooms_left (None, None, PInf)
                   = (Some room, Some door, distance hyp pos door)"
      and fin: "flt (distance hyp pos door) PInf"
      and before: "\<forall>c\<in>set pre. \<not> fle (distance hyp pos (snd c)) (distance hyp pos door)"
      and after: "\<forall>c\<in>set post. \<not> flt (distance hyp pos (snd c)) (distance hyp pos door)"
      by blast
    have "choose_nearest_room hyp h r rooms_left s
        = Inr (Some room, Some door, fdiv_nz (distance hyp pos door) s)"
      using a s0 scan by (simp add: choose_nearest_room_def and_then_def fdiv_def)
    with dec fin before after show ?thesis by blast
  qed
qed

theorem choose_nearest_room_float_form_witness:
  "position scenario_responder = Some (Fin 0, Fin 0) \<and> [0::nat] \<noteq> [] \<and> flt (Fin 0) (Fin 1) \<and>
   access_points doorless_heap 0 = [(Fin 3, Fin 4)] \<and>
   choose_nearest_room hypot_cr doorless_heap scenario_responder [0] (Fin 1)
     = Inr (Some 0, Some (Fin 3, Fin 4), Fin 5)"
proof -
  let ?d = "\<lambda>door. distance hypot_cr (Fin 0, Fin 0) door"
  have hyp: "position scenario_responder = Some (Fin 0, Fin 0) \<and> [0::nat] \<noteq> [] \<and>
      flt (Fin 0) (Fin 1)"
    by (simp add: scenario_defs)
  note t = choose_nearest_room_float_form
    [where hyp = hypot_cr and h = doorless_heap and r = scenario_responder and s = "Fin 1"
       and room = 0 and pos = "(Fin 0, Fin 0)" and rooms_left = "[0]"]
  have ap: "access_points doorless_heap 0 = [(Fin 3, Fin 4)]"
    using t by (simp add: doorless_heap_def)
  have cand: "candidates doorless_heap [0] = [(0, (Fin 3, Fin 4))]"
    by (simp add: candidates_def ap)
  have d: "?d (Fin 3, Fin 4) = Fin 5" by (simp add: distance_def fsub_def)
  have "\<not> (\<forall>c\<in>set (candidates doorless_heap [0]). \<not> flt (?d (snd c)) PInf)"
    by (simp add: cand d)
  with t hyp obtain pre room door post
    where dec: "candidates doorless_heap [0] = pre @ (room, door) # post"
    and val: "choose_nearest_room hypot_cr doorless_heap scenario_responder [0] (Fin 1)
                = Inr (Some room, Some door, fdiv_nz (?d door) (Fin 1))"
    by blast
  from dec cand have "room = 0 \<and> door = (Fin 3, Fin 4)" by (cases pre) auto
  then have "choose_nearest_room hypot_cr doorless_heap scenario_responder [0] (Fin 1)
      = Inr (Some 0, Some (Fin 3, Fin 4), Fin 5)"
    using val d by simp
  with hyp ap show ?thesis by blast
qed

text \<open>
  The claim fails for a room whose door is so far that its distance is not a finite float:
  the list of candidates is not empty, yet the policy returns the none-triple.
\<close>

theorem choose_nearest_room_far_counterexample:
  "choose_nearest_room hypot_cr far_heap scenario_responder [0] (Fin 1) = Inr (None, None, Fin 0)"
  by (simp add: choose_nearest_room_def scenario_responder_def door_positions_def
        get_door_positions_def door_position_def far_heap_def far_distance Let_def)

section \<open>Clearance time\<close>









section \<open>The bodies of the responder loops\<close>

lemma choose_nearest_room_member:
  assumes "choose_nearest_room hyp h r rooms_left speed = Inr (Some room, door, t)"
  shows "room \<in> set rooms_left"
proof -
  from assms obtain pos where pos: "position r = Some pos" and ne: "rooms_left \<noteq> []"
    by (auto simp: choose_nearest_room_def split: if_splits option.splits)
  from scan_rooms_cases [of hyp h pos rooms_left] show ?thesis
  proof
    assume "scan_rooms hyp h pos rooms_left (None, None, PInf) = (None, None, PInf) \<and>
        (\<forall>c\<in>set (candidates h rooms_left). \<not> flt (distance hyp pos (snd c)) PInf)"
    with assms pos ne show ?thesis by (simp add: choose_nearest_room_def)
  next
    assume "\<exists>pre room door post. candidates h rooms_left = pre @ (room, door) # post \<and>
      scan_rooms hyp h pos rooms_left (None, None, PInf)
        = (Some room, Some door, distance hyp pos door) \<and>
      flt (distance hyp pos door) PInf \<and>
      (\<forall>c\<in>set pre. \<not> fle (distance hyp pos (snd c)) (distance hyp pos door)) \<and>
      (\<forall>c\<in>set post. \<not> flt (distance hyp pos (snd c)) (distance hyp pos door))"
    then obtain pre room' door' post
      where dec: "candidates h rooms_left = pre @ (room', door') # post"
      and scan: "scan_rooms hyp h pos rooms_left (None, None, PInf)
                   = (Some room', Some door', distance hyp pos door')"
      by blast
    from assms pos ne scan have "room = room'"
      by (auto simp: choose_nearest_room_def and_then_def split: if_splits sum.splits)
    moreover have "(room', door') \<in> set (candidates h rooms_left)" using dec by simp
    ultimately show ?thesis using candidates_fst by fastforce
  qed
qed

lemma assign_one_cases:
  assumes "assign_one hyp speed i st = Inr st'"
  shows "st' = st \<or>
     (\<exists>room door t. room \<in> set (available_rooms st) \<and> state (responders st ! i) = Idle \<and>
        st' = st\<lparr>responders := (responders st)
                  [i := (responders st ! i)\<lparr>state := Moving, time_remaining := F t,
                         target_room := Some room, target_door := door\<rparr>],
                available_rooms := filter (\<lambda>rm. rm \<noteq> room) (available_rooms st)\<rparr>)"
proof (cases "state (responders st ! i) = Idle \<and> available_rooms st \<noteq> []")
  case False
  with assms show ?thesis by (auto simp: assign_one_def Let_def)
next
  case True
  show ?thesis
  proof (cases "choose_nearest_room hyp (store st) (responders st ! i) (available_rooms st) speed")
    case (Inl e)
    with assms True show ?thesis by (simp add: assign_one_def Let_def)
  next
    case (Inr res)
    obtain ro door t where res: "res = (ro, door, t)" by (cases res)
    show ?thesis
    proof (cases ro)
      case None
      with assms True Inr res show ?thesis by (simp add: assign_one_def Let_def)
    next
      case (Some room)
      have "room \<in> set (available_rooms st)"
        using Inr res Some choose_nearest_room_member by blast
      with assms True Inr res Some show ?thesis
        by (auto simp: assign_one_def Let_def)
    qed
  qed
qed

lemma assign_one_raise: "assign_one hyp speed i st = Inl (e, st') \<Longrightarrow> st' = st"
  by (auto simp: assign_one_def Let_def split: if_splits sum.splits option.splits prod.splits)

lemma step_ok_refl: "step_ok i st st"
  unfolding step_ok_def by (auto intro: exI [of _ "responders st ! i"])

lemma step_ok_update:
  "claimed r' \<subseteq> claimed (responders st ! i) \<Longrightarrow>
   step_ok i st (st\<lparr>responders := (responders st)[i := r']\<rparr>)"
  unfolding step_ok_def by auto

lemma step_ok_update_remaining:
  "claimed r' \<subseteq> claimed (responders st ! i) \<Longrightarrow>
   step_ok i st (st\<lparr>remaining_rooms := xs, responders := (responders st)[i := r']\<rparr>)"
  unfolding step_ok_def by auto

lemma step_ok_update_store:
  "claimed r' \<subseteq> claimed (responders st ! i) \<Longrightarrow>
   step_ok i st (st\<lparr>store := zero_unabled (store st) room,
                     responders := (responders st)[i := r']\<rparr>)"
  unfolding step_ok_def by auto

lemma process_one_step_ok:
  assumes "process_one hyp speed i st = Inr st' \<or> process_one hyp speed i st = Inl (e, st')"
  shows "step_ok i st st'"
proof (cases "num_lt (F tolerance) (time_remaining (responders st ! i))")
  case True
  with assms have "st' = st" by (auto simp: process_one_def Let_def)
  then show ?thesis by (simp add: step_ok_refl)
next
  case False
  let ?r = "responders st ! i"
  show ?thesis
  proof (cases "state ?r")
    case Idle
    with assms False have "st' = st" by (auto simp: process_one_def Let_def)
    then show ?thesis by (simp add: step_ok_refl)
  next
    case Moving
    with assms False show ?thesis
      by (auto simp: process_one_def Let_def claimed_def split: option.splits sum.splits
            intro!: step_ok_update)
  next
    case Clearing
    with assms False show ?thesis
      by (auto simp: process_one_def Let_def claimed_def step_ok_refl
            split: option.splits if_splits prod.splits sum.splits
            intro!: step_ok_update step_ok_update_remaining step_ok_update_store)
  next
    case Evacuating_unabled
    with assms False show ?thesis
      by (auto simp: process_one_def Let_def claimed_def split: option.splits
            intro!: step_ok_update step_ok_update_remaining)
  qed
qed

lemma advance_one_step_ok:
  assumes "advance_one dt i st = Inr st' \<or> advance_one dt i st = Inl (e, st')"
  shows "step_ok i st st'"
  using assms
  by (auto simp: advance_one_def Let_def claimed_def step_ok_refl split: if_splits sum.splits
        intro!: step_ok_update)

section \<open>The room-claim invariant\<close>

lemma claim_inv_step_ok:
  assumes "claim_inv st" and "step_ok i st st'"
  shows "claim_inv st'"
proof -
  from assms(2) obtain r' where rs: "responders st' = (responders st)[i := r']"
      and sub: "claimed r' \<subseteq> claimed (responders st ! i)"
      and av: "available_rooms st' = available_rooms st"
    unfolding step_ok_def by blast
  have shrink: "claimed (responders st' ! k) \<subseteq> claimed (responders st ! k)"
    if "k < length (responders st)" for k
    using that sub rs by (cases "k = i") auto
  have len: "length (responders st') = length (responders st)" using rs by simp
  show ?thesis
    unfolding claim_inv_def len av
  proof (intro conjI allI impI)
    fix k l assume "k < length (responders st)" "l < length (responders st)" "k \<noteq> l"
    then show "claimed (responders st' ! k) \<inter> claimed (responders st' ! l) = {}"
      using assms(1) shrink [of k] shrink [of l] unfolding claim_inv_def by blast
  next
    fix k assume "k < length (responders st)"
    then show "claimed (responders st' ! k) \<inter> set (available_rooms st) = {}"
      using assms(1) shrink [of k] unfolding claim_inv_def by blast
  qed
qed

lemma claim_inv_assign_one:
  assumes "claim_inv st" and "i < length (responders st)" and "assign_one hyp speed i st = Inr st'"
  shows "claim_inv st'"
proof -
  from assign_one_cases [OF assms(3)] show ?thesis
  proof
    assume "st' = st" with assms(1) show ?thesis by simp
  next
    assume "\<exists>room door t. room \<in> set (available_rooms st) \<and> state (responders st ! i) = Idle \<and>
        st' = st\<lparr>responders := (responders st)
                  [i := (responders st ! i)\<lparr>state := Moving, time_remaining := F t,
                         target_room := Some room, target_door := door\<rparr>],
                available_rooms := filter (\<lambda>rm. rm \<noteq> room) (available_rooms st)\<rparr>"
    then obtain room door t where mem: "room \<in> set (available_rooms st)"
      and st': "st' = st\<lparr>responders := (responders st)
                  [i := (responders st ! i)\<lparr>state := Moving, time_remaining := F t,
                         target_room := Some room, target_door := door\<rparr>],
                available_rooms := filter (\<lambda>rm. rm \<noteq> room) (available_rooms st)\<rparr>"
      by blast
    let ?r' = "(responders st ! i)\<lparr>state := Moving, time_remaining := F t,
                         target_room := Some room, target_door := door\<rparr>"
    have cl: "claimed ?r' = {room}" by (simp add: claimed_def)
    have free: "room \<notin> claimed (responders st ! k)" if "k < length (responders st)" for k
      using assms(1) mem that unfolding claim_inv_def by blast
    have nth: "responders st' ! k = (if k = i then ?r' else responders st ! k)"
      if "k < length (responders st)" for k
      using that st' by (simp add: nth_list_update)
    have len: "length (responders st') = length (responders st)" using st' by simp
    have av: "set (available_rooms st') = set (available_rooms st) - {room}"
      using st' by auto
    show ?thesis
      unfolding claim_inv_def len av
    proof (intro conjI allI impI)
      fix k l assume kl: "k < length (responders st)" "l < length (responders st)" "k \<noteq> l"
      then show "claimed (responders st' ! k) \<inter> claimed (responders st' ! l) = {}"
        using assms(1) nth [of k] nth [of l] cl free [of k] free [of l]
        unfolding claim_inv_def by (cases "k = i"; cases "l = i") auto
    next
      fix k assume k: "k < length (responders st)"
      then show "claimed (responders st' ! k) \<inter> (set (available_rooms st) - {room}) = {}"
        using assms(1) nth [of k] cl unfolding claim_inv_def by (cases "k = i") auto
    qed
  qed
qed

lemma room_in_self: "room \<in> set xs \<Longrightarrow> room_in h room xs"
  by (auto simp: room_in_def room_eq_def list_ex_iff)

lemma claimed_already_taken:
  assumes "k < length rs" and "room \<in> claimed (rs ! k)"
  shows "room \<in> set (already_taken rs)"
proof -
  let ?P = "\<lambda>r. is_busy r \<and> target_room r \<noteq> None"
  from assms(2) have ni: "state (rs ! k) \<noteq> Idle" and t: "target_room (rs ! k) = Some room"
    by (simp_all add: claimed_def split: if_splits)
  from ni have busy: "is_busy (rs ! k)"
    by (cases "state (rs ! k)") (simp_all add: is_busy_def)
  have "rs ! k \<in> set rs" using assms(1) by (rule nth_mem)
  with busy t have "rs ! k \<in> set (filter ?P rs)" by simp
  then have "the (target_room (rs ! k)) \<in> (\<lambda>r. the (target_room r)) ` set (filter ?P rs)"
    by (rule imageI)
  then show ?thesis
    unfolding already_taken_def set_map using t by simp
qed

lemma claim_inv_compute_available:
  assumes "claim_inv st"
  shows "claim_inv (compute_available st)"
proof -
  have rs: "responders (compute_available st) = responders st"
    by (simp add: compute_available_def)
  have av: "room \<notin> set (available_rooms (compute_available st))"
    if "k < length (responders st)" "room \<in> claimed (responders st ! k)" for k room
    using claimed_already_taken [OF that] room_in_self [of room _ "store st"]
    by (auto simp: compute_available_def)
  show ?thesis
    unfolding claim_inv_def rs
  proof (intro conjI allI impI)
    fix k l assume "k < length (responders st)" "l < length (responders st)" "k \<noteq> l"
    then show "claimed (responders st ! k) \<inter> claimed (responders st ! l) = {}"
      using assms unfolding claim_inv_def by blast
  next
    fix k assume "k < length (responders st)"
    then show "claimed (responders st ! k) \<inter> set (available_rooms (compute_available st)) = {}"
      using av by blast
  qed
qed

lemma claim_inv_clock: "claim_inv st \<Longrightarrow> claim_inv (st\<lparr>current_time := t\<rparr>)"
  by (simp add: claim_inv_def)

lemma claim_inv_initial: "claim_inv (initial_state n rooms exits start h)"
  by (simp add: claim_inv_def initial_state_def claimed_def)

lemma sim_point_claim_inv:
  "sim_point hyp speed (initial_state n rooms exits start h) st \<Longrightarrow> claim_inv st"
proof (induction rule: sim_point.induct)
  case at_start
  show ?case by (rule claim_inv_initial)
next
  case (at_available st)
  then show ?case by (simp add: claim_inv_compute_available)
next
  case (at_assign st i st')
  then show ?case using claim_inv_assign_one by blast
next
  case (at_assign_raise st i e st')
  then show ?case using assign_one_raise by blast
next
  case (at_clock st t)
  then show ?case by (simp add: claim_inv_clock)
next
  case (at_advance st i dt st')
  then show ?case using claim_inv_step_ok advance_one_step_ok by blast
next
  case (at_advance_raise st i dt e st')
  then show ?case using claim_inv_step_ok advance_one_step_ok by blast
next
  case (at_process st i st')
  then show ?case using claim_inv_step_ok process_one_step_ok by blast
next
  case (at_process_raise st i e st')
  then show ?case using claim_inv_step_ok process_one_step_ok by blast
qed

text \<open>
  C7. At every program point of the simulation loop, two different responders never
  claim the same room object: the rooms targeted by one non-idle responder and by another
  are disjoint. This covers the states between two assignments of one pass.
\<close>

theorem claimed_rooms_disjoint:
  assumes "sim_point hyp speed (initial_state n_responders rooms exits start_position h) st"
    and "i < length (responders st)" and "j < length (responders st)" and "i \<noteq> j"
  shows "claimed (responders st ! i) \<inter> claimed (responders st ! j) = {}"
  using sim_point_claim_inv [OF assms(1)] assms(2-4) unfolding claim_inv_def by blast

section \<open>The loop stays within the program points\<close>

lemma assign_one_length:
  "assign_one hyp speed i st = Inr st' \<Longrightarrow> length (responders st') = length (responders st)"
  using assign_one_cases [of hyp speed i st st'] by auto

lemma step_ok_length: "step_ok i st st' \<Longrightarrow> length (responders st') = length (responders st)"
  unfolding step_ok_def by auto

lemma for_each_invariant:
  assumes step: "\<And>i s s'. P s \<Longrightarrow> i < length (responders s) \<Longrightarrow> body i s = Inr s' \<Longrightarrow>
      P s' \<and> length (responders s') = length (responders s)"
    and raise: "\<And>i s e s'. P s \<Longrightarrow> i < length (responders s) \<Longrightarrow> body i s = Inl (e, s') \<Longrightarrow> P s'"
  shows "P st \<Longrightarrow> \<forall>i\<in>set js. i < length (responders st) \<Longrightarrow>
     (for_each body js st = Inr st' \<longrightarrow> P st' \<and> length (responders st') = length (responders st)) \<and>
     (for_each body js st = Inl (e, st') \<longrightarrow> P st')"
proof (induction js arbitrary: st)
  case Nil
  then show ?case by auto
next
  case (Cons i js)
  show ?case
  proof (cases "body i st")
    case (Inl err)
    obtain e0 s0 where err: "err = (e0, s0)" by (cases err)
    have "P s0" using raise [of st i e0 s0] Cons.prems Inl err by simp
    then show ?thesis using Inl err by auto
  next
    case (Inr s1)
    have s1: "P s1 \<and> length (responders s1) = length (responders st)"
      using step [of st i s1] Cons.prems Inr by simp
    then have "\<forall>k\<in>set js. k < length (responders s1)" using Cons.prems by simp
    from Cons.IH [OF _ this] s1 show ?thesis using Inr by simp
  qed
qed

lemma heap_frame_refl: "heap_frame h h"
  by (simp add: heap_frame_def)

lemma heap_frame_zero_unabled:
  "heap_frame h0 h \<Longrightarrow> heap_frame h0 (zero_unabled h room)"
  by (simp add: heap_frame_def zero_unabled_def Let_def)

lemma frame_inv_step_ok: "frame_inv init st \<Longrightarrow> step_ok i st st' \<Longrightarrow> frame_inv init st'"
  unfolding frame_inv_def step_ok_def by (auto simp: heap_frame_zero_unabled)

lemma frame_inv_assign_one:
  "frame_inv init st \<Longrightarrow> assign_one hyp speed i st = Inr st' \<Longrightarrow> frame_inv init st'"
  using assign_one_cases [of hyp speed i st st'] unfolding frame_inv_def by auto

lemma sim_point_frame: "sim_point hyp speed init st \<Longrightarrow> frame_inv init st"
proof (induction rule: sim_point.induct)
  case at_start
  show ?case by (simp add: frame_inv_def heap_frame_refl)
next
  case (at_available st)
  then show ?case by (simp add: frame_inv_def compute_available_def)
next
  case (at_assign st i st')
  then show ?case using frame_inv_assign_one by blast
next
  case (at_assign_raise st i e st')
  then show ?case using assign_one_raise by blast
next
  case (at_clock st t)
  then show ?case by (simp add: frame_inv_def)
next
  case (at_advance st i dt st')
  then show ?case using frame_inv_step_ok advance_one_step_ok by blast
next
  case (at_advance_raise st i dt e st')
  then show ?case using frame_inv_step_ok advance_one_step_ok by blast
next
  case (at_process st i st')
  then show ?case using frame_inv_step_ok process_one_step_ok by blast
next
  case (at_process_raise st i e st')
  then show ?case using frame_inv_step_ok process_one_step_ok by blast
qed


lemma process_one_length:
  "process_one hyp speed i st = Inr st' \<Longrightarrow> length (responders st') = length (responders st)"
  using process_one_step_ok [of hyp speed i st st'] step_ok_length by blast

lemma for_each_assign_point:
  assumes "sim_point hyp speed init st" and "\<forall>i\<in>set js. i < length (responders st)"
  shows "(for_each (assign_one hyp speed) js st = Inr st' \<longrightarrow>
            sim_point hyp speed init st' \<and> length (responders st') = length (responders st)) \<and>
         (for_each (assign_one hyp speed) js st = Inl (e, st') \<longrightarrow> sim_point hyp speed init st')"
proof (rule for_each_invariant [where P = "sim_point hyp speed init"])
  show "sim_point hyp speed init s' \<and> length (responders s') = length (responders s)"
    if "sim_point hyp speed init s" "i < length (responders s)" "assign_one hyp speed i s = Inr s'"
    for i s s'
    using that at_assign assign_one_length by blast
  show "sim_point hyp speed init s'"
    if "sim_point hyp speed init s" "i < length (responders s)" "assign_one hyp speed i s = Inl (e, s')"
    for i s e s'
    using that at_assign_raise by blast
  show "sim_point hyp speed init st" by (rule assms(1))
  show "\<forall>i\<in>set js. i < length (responders st)" by (rule assms(2))
qed

lemma for_each_process_point:
  assumes "sim_point hyp speed init st" and "\<forall>i\<in>set js. i < length (responders st)"
  shows "(for_each (process_one hyp speed) js st = Inr st' \<longrightarrow>
            sim_point hyp speed init st' \<and> length (responders st') = length (responders st)) \<and>
         (for_each (process_one hyp speed) js st = Inl (e, st') \<longrightarrow> sim_point hyp speed init st')"
proof (rule for_each_invariant [where P = "sim_point hyp speed init"])
  show "sim_point hyp speed init s' \<and> length (responders s') = length (responders s)"
    if "sim_point hyp speed init s" "i < length (responders s)" "process_one hyp speed i s = Inr s'"
    for i s s'
    using that at_process process_one_length by blast
  show "sim_point hyp speed init s'"
    if "sim_point hyp speed init s" "i < length (responders s)" "process_one hyp speed i s = Inl (e, s')"
    for i s e s'
    using that at_process_raise by blast
  show "sim_point hyp speed init st" by (rule assms(1))
  show "\<forall>i\<in>set js. i < length (responders st)" by (rule assms(2))
qed

lemma advance_one_length:
  "advance_one dt i st = Inr st' \<Longrightarrow> length (responders st') = length (responders st)"
  using advance_one_step_ok [of dt i st st'] step_ok_length by blast

lemma for_each_advance_point:
  assumes "sim_point hyp speed init st" and "\<forall>i\<in>set js. i < length (responders st)"
  shows "(for_each (advance_one dt) js st = Inr st' \<longrightarrow>
            sim_point hyp speed init st' \<and> length (responders st') = length (responders st)) \<and>
         (for_each (advance_one dt) js st = Inl (e, st') \<longrightarrow> sim_point hyp speed init st')"
proof (rule for_each_invariant [where P = "sim_point hyp speed init"])
  show "sim_point hyp speed init s' \<and> length (responders s') = length (responders s)"
    if "sim_point hyp speed init s" "i < length (responders s)" "advance_one dt i s = Inr s'"
    for i s s'
    using that at_advance advance_one_length by blast
  show "sim_point hyp speed init s'"
    if "sim_point hyp speed init s" "i < length (responders s)" "advance_one dt i s = Inl (e, s')"
    for i s e s'
    using that at_advance_raise by blast
  show "sim_point hyp speed init st" by (rule assms(1))
  show "\<forall>i\<in>set js. i < length (responders st)" by (rule assms(2))
qed

lemma sim_pass_point:
  assumes "sim_point hyp speed init st"
  shows "(sim_pass hyp speed st = Inr (b, st') \<longrightarrow> sim_point hyp speed init st') \<and>
         (sim_pass hyp speed st = Inl (e, st') \<longrightarrow> sim_point hyp speed init st')"
proof -
  let ?st1 = "compute_available st"
  let ?run1 = "for_each (assign_one hyp speed) [0..<length (responders ?st1)] ?st1"
  have p1: "sim_point hyp speed init ?st1" using assms by (rule at_available)
  have idx: "\<forall>i\<in>set [0..<length (responders s)]. i < length (responders s)" for s :: sim_state
    by simp
  show ?thesis
  proof (cases ?run1)
    case (Inl err)
    obtain e0 s0 where err: "err = (e0, s0)" by (cases err)
    have "sim_point hyp speed init s0"
      using for_each_assign_point [OF p1 idx, of s0 e0] Inl err by simp
    then show ?thesis using Inl err by (auto simp: sim_pass_def Let_def)
  next
    case (Inr st2)
    have p2: "sim_point hyp speed init st2"
      using for_each_assign_point [OF p1 idx, of st2] Inr by simp
    show ?thesis
    proof (cases "filter is_busy (responders st2)")
      case Nil
      then show ?thesis using Inr p2 by (auto simp: sim_pass_def Let_def)
    next
      case (Cons a active)
      let ?dt = "py_min (time_remaining a) (map time_remaining active)"
      show ?thesis
      proof (cases "float_add_num (current_time st2) ?dt")
        case (Inl e1)
        then have "sim_pass hyp speed st = Inl (e1, st2)"
          using Inr Cons by (simp add: sim_pass_def Let_def)
        then show ?thesis using p2 by auto
      next
        case (Inr t)
        let ?st2' = "st2\<lparr>current_time := t\<rparr>"
        let ?run2 = "for_each (advance_one ?dt) [0..<length (responders st2)] ?st2'"
        have p2': "sim_point hyp speed init ?st2'" using p2 by (rule at_clock)
        have idx2: "\<forall>i\<in>set [0..<length (responders st2)]. i < length (responders ?st2')"
          by simp
        show ?thesis
        proof (cases ?run2)
          case (Inl err)
          obtain e0 s0 where err: "err = (e0, s0)" by (cases err)
          have "sim_point hyp speed init s0"
            using for_each_advance_point [OF p2' idx2, of ?dt s0 e0] Inl err by simp
          moreover have "sim_pass hyp speed st = Inl (e0, s0)"
            using \<open>?run1 = Inr st2\<close> Cons Inr Inl err by (simp add: sim_pass_def Let_def)
          ultimately show ?thesis by auto
        next
          case st3: (Inr st3)
          have p3: "sim_point hyp speed init st3"
            using for_each_advance_point [OF p2' idx2, of ?dt st3] st3 by simp
          let ?run3 = "for_each (process_one hyp speed) [0..<length (responders st3)] st3"
          have pass: "sim_pass hyp speed st =
              (case ?run3 of Inl e \<Rightarrow> Inl e | Inr st4 \<Rightarrow> Inr (True, st4))"
            using \<open>?run1 = Inr st2\<close> Cons Inr st3 by (simp add: sim_pass_def Let_def)
          show ?thesis
          proof (cases ?run3)
            case (Inl err)
            obtain e0 s0 where err: "err = (e0, s0)" by (cases err)
            have "sim_point hyp speed init s0"
              using for_each_process_point [OF p3 idx, of s0 e0] Inl err by simp
            then show ?thesis using Inl err pass by auto
          next
            case (Inr st4)
            have "sim_point hyp speed init st4"
              using for_each_process_point [OF p3 idx, of st4] Inr by simp
            then show ?thesis using Inr pass by auto
          qed
        qed
      qed
    qed
  qed
qed

lemma sim_loop_point:
  assumes "sim_loop hyp speed st = Some res" and "sim_point hyp speed init st"
  shows "case res of Inl (e, st') \<Rightarrow> sim_point hyp speed init st'
                   | Inr st' \<Rightarrow> sim_point hyp speed init st'"
proof -
  let ?Q = "\<lambda>hp sp r. case r of Inl (e, st') \<Rightarrow> sim_point hp sp init st'
                               | Inr st' \<Rightarrow> sim_point hp sp init st'"
  have "sim_point hyp speed init st \<longrightarrow> ?Q hyp speed res"
  proof (rule sim_loop.raw_induct
        [where P = "\<lambda>hp sp s r. sim_point hp sp init s \<longrightarrow> ?Q hp sp r", OF _ assms(1)])
    fix loop :: "(pyfloat \<Rightarrow> pyfloat \<Rightarrow> pyfloat) \<Rightarrow> pyfloat \<Rightarrow> sim_state
        \<Rightarrow> ((error \<times> sim_state) + sim_state) option"
    fix hp sp s r
    assume IH: "\<And>hp' sp' s' r'. loop hp' sp' s' = Some r' \<Longrightarrow>
        sim_point hp' sp' init s' \<longrightarrow> ?Q hp' sp' r'"
    assume eq: "(if loop_cond s
          then case sim_pass hp sp s of Inl e \<Rightarrow> Some (Inl e)
               | Inr (continue, st') \<Rightarrow> if continue then loop hp sp st' else Some (Inr st')
          else Some (Inr s)) = Some r"
    show "sim_point hp sp init s \<longrightarrow> ?Q hp sp r"
    proof
      assume pt: "sim_point hp sp init s"
      show "?Q hp sp r"
      proof (cases "loop_cond s")
        case False
        with eq pt show ?thesis by auto
      next
        case True
        show ?thesis
        proof (cases "sim_pass hp sp s")
          case (Inl err)
          obtain e0 s0 where err: "err = (e0, s0)" by (cases err)
          have "sim_point hp sp init s0"
            using sim_pass_point [OF pt, of True s0 e0] Inl err by simp
          then show ?thesis using eq True Inl err by auto
        next
          case (Inr cont)
          obtain c s1 where cont: "cont = (c, s1)" by (cases cont)
          have p: "sim_point hp sp init s1"
            using sim_pass_point [OF pt, of c s1] Inr cont by simp
          show ?thesis
          proof (cases c)
            case True
            with eq \<open>loop_cond s\<close> Inr cont have "loop hp sp s1 = Some r" by simp
            from IH [OF this] p show ?thesis by blast
          next
            case False
            with eq \<open>loop_cond s\<close> Inr cont p show ?thesis by auto
          qed
        qed
      qed
    qed
  qed
  with assms(2) show ?thesis by blast
qed

lemma frame_at_return:
  assumes "find_fastest_evacuation hyp n_responders rooms exits responder_speed start_position h
             = Some (res, h', rooms', exits')"
  shows "rooms' = rooms \<and> exits' = exits \<and>
     (\<forall>room. room_id (room_objs h' room) = room_id (room_objs h room) \<and>
        base_clear_time (room_objs h' room) = base_clear_time (room_objs h room) \<and>
        shape (room_objs h' room) = shape (room_objs h room) \<and>
        doors (room_objs h' room) = doors (room_objs h room) \<and>
        adults (room_occupants h' room) = adults (room_occupants h room) \<and>
        children (room_occupants h' room) = children (room_occupants h room) \<and>
        (unabled (room_occupants h' room) = unabled (room_occupants h room) \<or>
         unabled (room_occupants h' room) = 0))"
proof -
  let ?init = "initial_state n_responders rooms exits start_position h"
  have fr: "heap_frame h h' \<and> rooms' = rooms \<and> exits' = exits"
  proof (cases "fle responder_speed (Fin 0)")
    case True
    with assms show ?thesis by (simp add: find_fastest_evacuation_def heap_frame_refl)
  next
    case False
    with assms obtain r where run: "sim_loop hyp responder_speed ?init = Some r"
      by (cases "sim_loop hyp responder_speed ?init") (auto simp: find_fastest_evacuation_def)
    have start: "sim_point hyp responder_speed ?init ?init" by (rule at_start)
    obtain st where st: "r = Inr st \<or> (\<exists>e. r = Inl (e, st))" by (cases r) auto
    then have "sim_point hyp responder_speed ?init st"
      using sim_loop_point [OF run start] by auto
    then have "frame_inv ?init st" by (rule sim_point_frame)
    moreover have "h' = store st \<and> rooms' = caller_rooms st \<and> exits' = caller_exits st"
      using assms False run st by (auto simp: find_fastest_evacuation_def)
    ultimately show ?thesis by (simp add: frame_inv_def initial_state_def)
  qed
  then show ?thesis
    unfolding heap_frame_def room_occupants_def by simp
qed

text \<open>
  C10. A call leaves the caller's rooms list and exits list as they were, and of every
  room it changes at most the unabled count, and that only to zero: id, base clearance
  duration, shape, doors, adult count and child count are the same when the call returns
  (or raises). The same holds at every program point of the loop.
\<close>

theorem find_fastest_evacuation_frame:
  "(find_fastest_evacuation hyp n_responders rooms exits responder_speed start_position h
      = Some (res, h', rooms', exits') \<longrightarrow>
    rooms' = rooms \<and> exits' = exits \<and>
    (\<forall>room. room_id (room_objs h' room) = room_id (room_objs h room) \<and>
       base_clear_time (room_objs h' room) = base_clear_time (room_objs h room) \<and>
       shape (room_objs h' room) = shape (room_objs h room) \<and>
       doors (room_objs h' room) = doors (room_objs h room) \<and>
       adults (room_occupants h' room) = adults (room_occupants h room) \<and>
       children (room_occupants h' room) = children (room_occupants h room) \<and>
       (unabled (room_occupants h' room) = unabled (room_occupants h room) \<or>
        unabled (room_occupants h' room) = 0))) \<and>
   (sim_point hyp responder_speed
      (initial_state n_responders rooms exits start_position h) st \<longrightarrow>
    caller_rooms st = rooms \<and> caller_exits st = exits \<and> heap_frame h (store st))"
proof (rule conjI; rule impI)
  assume "find_fastest_evacuation hyp n_responders rooms exits responder_speed start_position h
      = Some (res, h', rooms', exits')"
  then show "rooms' = rooms \<and> exits' = exits \<and>
    (\<forall>room. room_id (room_objs h' room) = room_id (room_objs h room) \<and>
       base_clear_time (room_objs h' room) = base_clear_time (room_objs h room) \<and>
       shape (room_objs h' room) = shape (room_objs h room) \<and>
       doors (room_objs h' room) = doors (room_objs h room) \<and>
       adults (room_occupants h' room) = adults (room_occupants h room) \<and>
       children (room_occupants h' room) = children (room_occupants h room) \<and>
       (unabled (room_occupants h' room) = unabled (room_occupants h room) \<or>
        unabled (room_occupants h' room) = 0))"
    by (rule frame_at_return)
next
  assume "sim_point hyp responder_speed
      (initial_state n_responders rooms exits start_position h) st"
  then have "frame_inv (initial_state n_responders rooms exits start_position h) st"
    by (rule sim_point_frame)
  then show "caller_rooms st = rooms \<and> caller_exits st = exits \<and> heap_frame h (store st)"
    by (simp add: frame_inv_def initial_state_def)
qed

section \<open>Runs of the driver\<close>

lemmas sim_defs = initial_state_def sim_pass_def loop_cond_def
  compute_available_def assign_one_def process_one_def advance_one_def already_taken_def
  is_busy_def room_in_def room_eq_def remove_if_in_def choose_nearest_room_def
  door_positions_def get_door_positions_def unabled_evac_time_def nearest_exit_def
  clearance_time_def room_occupants_def zero_unabled_def py_min_def float_add_num_def
  num_lt_def tolerance_def and_then_def int_times_def fdiv_def fsub_def

text \<open>
  C9. With a responder speed of at most zero the call fails with \<open>ValueError\<close> before
  the simulation starts: the loop is not entered, and the store and the caller's lists are
  as they were passed in.
\<close>

theorem find_fastest_evacuation_rejects_speed:
  "fle responder_speed (Fin 0) \<Longrightarrow>
     find_fastest_evacuation hyp n_responders rooms exits responder_speed start_position h
       = Some (Inl ValueError, h, rooms, exits)"
  by (simp add: find_fastest_evacuation_def)

theorem find_fastest_evacuation_rejects_speed_witness:
  "fle (Fin 0) (Fin 0) \<and>
   find_fastest_evacuation hypot_cr 3 [0] [scenario_exit] (Fin 0) (Fin 0, Fin 0) scenario_heap
     = Some (Inl ValueError, scenario_heap, [0], [scenario_exit])"
  using find_fastest_evacuation_rejects_speed
    [of "Fin 0" hypot_cr 3 "[0]" "[scenario_exit]" "(Fin 0, Fin 0)" scenario_heap]
  by simp

text \<open>
  C2. One responder, one room with base clearance 15, no children and two unabled
  occupants, a single door at distance 2 from the start, speed 1, and a single exit at
  distance 2 from the door: the call returns 27, and the room's unabled count is zero
  afterwards.
\<close>

theorem find_fastest_evacuation_scenario:
  assumes "doors (room_objs h room) = [d]"
    and "base_clear_time (room_objs h room) = Fin 15"
    and "children (room_occupants h room) = 0"
    and "unabled (room_occupants h room) = 2"
    and "distance hyp start (door_position d) = Fin 2"
    and "distance hyp (door_position d) (exit_position e) = Fin 2"
  shows "find_fastest_evacuation hyp 1 [room] [e] (Fin 1) start h
           = Some (Inr (Fin 27), zero_unabled h room, [room], [e])"
proof -
  note a = assms [unfolded room_occupants_def]
  show ?thesis
  apply (simp add: find_fastest_evacuation_def)
  apply (subst sim_loop.simps)
  apply (simp add: sim_defs a)
  apply (subst sim_loop.simps)
  apply (simp add: sim_defs a)
  apply (subst sim_loop.simps)
  apply (simp add: sim_defs a)
  apply (subst sim_loop.simps)
  apply (simp add: sim_defs a)
  done
qed

theorem find_fastest_evacuation_scenario_witness:
  "find_fastest_evacuation hypot_cr 1 [0] [scenario_exit] (Fin 1) (Fin 0, Fin 0) scenario_heap
     = Some (Inr (Fin 27), zero_unabled scenario_heap 0, [0], [scenario_exit])"
proof -
  let ?d = "\<lparr>door_x = Fin 2, door_y = Fin 0\<rparr>"
  have "doors (room_objs scenario_heap 0) = [?d]"
    and "base_clear_time (room_objs scenario_heap 0) = Fin 15"
    and "children (room_occupants scenario_heap 0) = 0"
    and "unabled (room_occupants scenario_heap 0) = 2"
    and "distance hypot_cr (Fin 0, Fin 0) (door_position ?d) = Fin 2"
    and "distance hypot_cr (door_position ?d) (exit_position scenario_exit) = Fin 2"
    by (simp_all add: scenario_defs room_occupants_def door_position_def exit_position_def)
  then show ?thesis by (rule find_fastest_evacuation_scenario)
qed

section \<open>The step from clearing to carrying\<close>

text \<open>
  C3, as the code has it. When a responder's clearing countdown has run out, its room
  holds unabled occupants and an exit exists, the driver sets the countdown to the extra
  time that the timing model returns and, in the same step, moves the responder to the
  final position that the model returns; it also zeroes the room's unabled count. The
  position does not stay at the door.
\<close>

theorem clearing_to_evacuating_moves_responder:
  assumes "i < length (responders st)"
    and "\<not> num_lt (F tolerance) (time_remaining (responders st ! i))"
    and "state (responders st ! i) = Clearing"
    and "target_room (responders st ! i) = Some room"
    and "0 < unabled (room_occupants (store st) room)"
    and "caller_exits st \<noteq> []"
    and "position (responders st ! i) = Some door_pos"
    and "unabled_evac_time hyp (unabled (room_occupants (store st) room)) door_pos
           (caller_exits st) speed = Inr (extra_time, final_pos)"
  shows "\<exists>st'. process_one hyp speed i st = Inr st' \<and>
     state (responders st' ! i) = Evacuating_unabled \<and>
     time_remaining (responders st' ! i) = F extra_time \<and>
     position (responders st' ! i) = Some final_pos \<and>
     unabled (room_occupants (store st') room) = 0"
proof -
  let ?r = "responders st ! i"
  let ?st' = "st\<lparr>store := zero_unabled (store st) room,
                  responders := (responders st)
                    [i := ?r\<lparr>state := Evacuating_unabled, time_remaining := F extra_time,
                              position := Some final_pos\<rparr>]\<rparr>"
  have run: "process_one hyp speed i st = Inr ?st'"
    using assms(2-8) by (simp add: process_one_def Let_def)
  have nth: "responders ?st' ! i
      = ?r\<lparr>state := Evacuating_unabled, time_remaining := F extra_time,
            position := Some final_pos\<rparr>"
    using assms(1) by simp
  have zero: "unabled (room_occupants (store ?st') room) = 0"
    by (simp add: room_occupants_def zero_unabled_def Let_def)
  have "process_one hyp speed i st = Inr ?st' \<and>
     state (responders ?st' ! i) = Evacuating_unabled \<and>
     time_remaining (responders ?st' ! i) = F extra_time \<and>
     position (responders ?st' ! i) = Some final_pos \<and>
     unabled (room_occupants (store ?st') room) = 0"
    using run zero unfolding nth by simp
  then show ?thesis by blast
qed

lemma scenario_evac:
  "unabled_evac_time hypot_cr 2 (Fin 2, Fin 0) [scenario_exit] (Fin 1)
     = Inr (Fin 10, (Fin 4, Fin 0))"
  by (simp add: unabled_evac_time_def nearest_exit_def exit_position_def scenario_exit_def
        Let_def and_then_def int_times_def fdiv_def)

theorem clearing_to_evacuating_moves_responder_witness:
  "\<exists>st'. process_one hypot_cr (Fin 1) 0 scenario_cleared = Inr st' \<and>
      state (responders st' ! 0) = Evacuating_unabled \<and>
      time_remaining (responders st' ! 0) = F (Fin 10) \<and>
      position (responders st' ! 0) = Some (Fin 4, Fin 0) \<and>
      unabled (room_occupants (store st') 0) = 0"
proof -
  have u: "unabled (room_occupants (store scenario_cleared) 0) = 2"
    by (simp add: scenario_cleared_def scenario_defs room_occupants_def)
  have hyps: "0 < length (responders scenario_cleared)"
    "\<not> num_lt (F tolerance) (time_remaining (responders scenario_cleared ! 0))"
    "state (responders scenario_cleared ! 0) = Clearing"
    "target_room (responders scenario_cleared ! 0) = Some 0"
    "0 < unabled (room_occupants (store scenario_cleared) 0)"
    "caller_exits scenario_cleared \<noteq> []"
    "position (responders scenario_cleared ! 0) = Some (Fin 2, Fin 0)"
    by (simp_all add: u) (simp_all add: scenario_cleared_def num_lt_def tolerance_def)
  have ev: "unabled_evac_time hypot_cr (unabled (room_occupants (store scenario_cleared) 0))
      (Fin 2, Fin 0) (caller_exits scenario_cleared) (Fin 1) = Inr (Fin 10, (Fin 4, Fin 0))"
    unfolding u using scenario_evac by (simp add: scenario_cleared_def)
  from clearing_to_evacuating_moves_responder [OF hyps ev] show ?thesis .
qed

text \<open>
  The claim that the position stays at the door fails in the scenario: the responder
  stands at the door \<open>(2, 0)\<close> before the step and at the exit \<open>(4, 0)\<close> right
  after it, with ten time units of carrying still to run.
\<close>

theorem position_stays_at_door_counterexample:
  "position (responders scenario_cleared ! 0) = Some (Fin 2, Fin 0) \<and>
   \<not> isl (process_one hypot_cr (Fin 1) 0 scenario_cleared) \<and>
   state (responders (projr (process_one hypot_cr (Fin 1) 0 scenario_cleared)) ! 0)
     = Evacuating_unabled \<and>
   time_remaining (responders (projr (process_one hypot_cr (Fin 1) 0 scenario_cleared)) ! 0)
     = F (Fin 10) \<and>
   position (responders (projr (process_one hypot_cr (Fin 1) 0 scenario_cleared)) ! 0)
     = Some (Fin 4, Fin 0)"
proof -
  have u: "unabled (room_occupants scenario_heap 0) = 2"
    by (simp add: scenario_defs room_occupants_def)
  have "process_one hypot_cr (Fin 1) 0 scenario_cleared =
      Inr (scenario_cleared\<lparr>store := zero_unabled scenario_heap 0,
             responders := [\<lparr>state = Evacuating_unabled, time_remaining = F (Fin 10),
                             position = Some (Fin 4, Fin 0), target_room = Some 0,
                             target_door = Some (Fin 2, Fin 0)\<rparr>]\<rparr>)"
    by (simp add: process_one_def scenario_cleared_def u scenario_evac num_lt_def
          tolerance_def Let_def)
  then show ?thesis by (simp add: scenario_cleared_def)
qed

section \<open>Leaving the loop with rooms left\<close>

lemma for_each_assign_keeps:
  "for_each (assign_one hyp speed) js st = Inr st' \<Longrightarrow>
     current_time st' = current_time st \<and> remaining_rooms st' = remaining_rooms st"
proof (induction js arbitrary: st)
  case Nil
  then show ?case by simp
next
  case (Cons i js)
  from Cons.prems obtain s1 where one: "assign_one hyp speed i st = Inr s1"
      and rest: "for_each (assign_one hyp speed) js s1 = Inr st'"
    by (cases "assign_one hyp speed i st") auto
  have "current_time s1 = current_time st \<and> remaining_rooms s1 = remaining_rooms st"
    using assign_one_cases [OF one] by auto
  with Cons.IH [OF rest] show ?case by simp
qed

text \<open>
  C4, as the code has it. If rooms remain and nobody is active after the assignment
  step, the loop ends at once, with the clock and the pool of remaining rooms as they
  were; and \<open>find_fastest_evacuation\<close> returns the elapsed time as a plain number, as
  after a normal run: with no responders, it returns 0 whatever the rooms are.
\<close>

theorem break_returns_plain_time:
  "(remaining_rooms st \<noteq> [] \<and>
    for_each (assign_one hyp speed) [0..<length (responders (compute_available st))]
      (compute_available st) = Inr st2 \<and>
    filter is_busy (responders st2) = [] \<longrightarrow>
      sim_loop hyp speed st = Some (Inr st2) \<and> current_time st2 = current_time st \<and>
      remaining_rooms st2 = remaining_rooms st) \<and>
   (\<not> fle responder_speed (Fin 0) \<and> n_responders \<le> 0 \<longrightarrow>
      find_fastest_evacuation hyp n_responders rooms exits responder_speed start_position h
        = Some (Inr (Fin 0), h, rooms, exits))"
proof (rule conjI; rule impI)
  assume a: "remaining_rooms st \<noteq> [] \<and>
    for_each (assign_one hyp speed) [0..<length (responders (compute_available st))]
      (compute_available st) = Inr st2 \<and>
    filter is_busy (responders st2) = []"
  have "current_time st2 = current_time (compute_available st) \<and>
      remaining_rooms st2 = remaining_rooms (compute_available st)"
    using a by (intro for_each_assign_keeps) blast
  then have keep: "current_time st2 = current_time st \<and>
      remaining_rooms st2 = remaining_rooms st"
    by (simp add: compute_available_def)
  have pass: "sim_pass hyp speed st = Inr (False, st2)"
    using a by (simp add: sim_pass_def Let_def)
  have "sim_loop hyp speed st = Some (Inr st2)"
    using a pass by (subst sim_loop.simps) (simp add: loop_cond_def)
  with keep show "sim_loop hyp speed st = Some (Inr st2) \<and> current_time st2 = current_time st \<and>
      remaining_rooms st2 = remaining_rooms st"
    by simp
next
  assume b: "\<not> fle responder_speed (Fin 0) \<and> n_responders \<le> 0"
  let ?init = "initial_state n_responders rooms exits start_position h"
  have rs: "responders ?init = []" using b by (simp add: initial_state_def)
  have pass: "sim_pass hyp responder_speed ?init = Inr (False, compute_available ?init)"
    using rs by (simp add: sim_pass_def Let_def compute_available_def)
  have "sim_loop hyp responder_speed ?init
      = Some (Inr (if rooms = [] then ?init else compute_available ?init))"
    using rs pass by (subst sim_loop.simps) (simp add: loop_cond_def initial_state_def)
  then show "find_fastest_evacuation hyp n_responders rooms exits responder_speed start_position h
        = Some (Inr (Fin 0), h, rooms, exits)"
    using b by (simp add: find_fastest_evacuation_def compute_available_def initial_state_def)
qed

theorem break_returns_plain_time_witness:
  "remaining_rooms (initial_state 0 [0] [scenario_exit] (Fin 0, Fin 0) scenario_heap) \<noteq> [] \<and>
   sim_loop hypot_cr (Fin 1) (initial_state 0 [0] [scenario_exit] (Fin 0, Fin 0) scenario_heap)
     = Some (Inr (compute_available
                    (initial_state 0 [0] [scenario_exit] (Fin 0, Fin 0) scenario_heap))) \<and>
   find_fastest_evacuation hypot_cr 0 [0] [scenario_exit] (Fin 1) (Fin 0, Fin 0) scenario_heap
     = Some (Inr (Fin 0), scenario_heap, [0], [scenario_exit])"
proof -
  let ?I = "initial_state 0 [0] [scenario_exit] (Fin 0, Fin 0) scenario_heap"
  have h1: "remaining_rooms ?I \<noteq> []" by (simp add: initial_state_def)
  have h2: "for_each (assign_one hypot_cr (Fin 1))
      [0..<length (responders (compute_available ?I))]
      (compute_available ?I) = Inr (compute_available ?I)"
    by (simp add: initial_state_def compute_available_def)
  have h3: "filter is_busy (responders (compute_available ?I)) = []"
    by (simp add: initial_state_def compute_available_def)
  have h4: "\<not> fle (Fin 1) (Fin 0) \<and> (0::int) \<le> 0" by simp
  note t = break_returns_plain_time [of ?I hypot_cr "Fin 1" "compute_available ?I" "Fin 1" 0
      "[0]" "[scenario_exit]" "(Fin 0, Fin 0)" scenario_heap]
  from t h1 h2 h3 have "sim_loop hypot_cr (Fin 1) ?I = Some (Inr (compute_available ?I))"
    by blast
  moreover from t h4
  have "find_fastest_evacuation hypot_cr 0 [0] [scenario_exit] (Fin 1) (Fin 0, Fin 0)
      scenario_heap = Some (Inr (Fin 0), scenario_heap, [0], [scenario_exit])"
    by blast
  ultimately show ?thesis using h1 by blast
qed

lemma instant_run:
  "find_fastest_evacuation hypot_cr 1 [0] [scenario_exit] (Fin 1) (Fin 0, Fin 0) instant_heap
     = Some (Inr (Fin 0), instant_heap, [0], [scenario_exit])"
  apply (simp add: find_fastest_evacuation_def)
  apply (subst sim_loop.simps)
  apply (simp add: sim_defs instant_heap_def door_position_def Let_def)
  apply (subst sim_loop.simps)
  apply (simp add: sim_defs instant_heap_def door_position_def Let_def)
  apply (subst sim_loop.simps)
  apply (simp add: sim_defs instant_heap_def door_position_def Let_def)
  done

lemma no_responder_run:
  "find_fastest_evacuation hypot_cr 0 [0] [scenario_exit] (Fin 1) (Fin 0, Fin 0) instant_heap
     = Some (Inr (Fin 0), instant_heap, [0], [scenario_exit])"
  apply (simp add: find_fastest_evacuation_def)
  apply (subst sim_loop.simps)
  apply (simp add: sim_defs)
  done

text \<open>
  The end state with an unreached room cannot be told from a normal one: with no
  responder the room is never visited, with one responder it is cleared in no time, and
  both calls give the same result, store and lists.
\<close>

theorem unreached_room_indistinguishable_counterexample:
  "responders (initial_state 0 [0] [scenario_exit] (Fin 0, Fin 0) instant_heap) = [] \<and>
   find_fastest_evacuation hypot_cr 0 [0] [scenario_exit] (Fin 1) (Fin 0, Fin 0) instant_heap
     = Some (Inr (Fin 0), instant_heap, [0], [scenario_exit]) \<and>
   find_fastest_evacuation hypot_cr 1 [0] [scenario_exit] (Fin 1) (Fin 0, Fin 0) instant_heap
     = Some (Inr (Fin 0), instant_heap, [0], [scenario_exit])"
  using instant_run no_responder_run by (simp add: initial_state_def)

section \<open>Examples\<close>


theorem unabled_evac_time_guard_witness:
  "unabled_evac_time hypot_cr 0 (Fin 2, Fin 0) [scenario_exit] (Fin 1) = Inr (Fin 0, (Fin 2, Fin 0)) \<and>
   unabled_evac_time hypot_cr 2 (Fin 2, Fin 0) [scenario_exit] (Fin 0) = Inr (Fin 0, (Fin 2, Fin 0)) \<and>
   unabled_evac_time hypot_cr 2 (Fin 2, Fin 0) [] (Fin 1) = Inr (Fin 0, (Fin 2, Fin 0))"
  using unabled_evac_time_guard [of 0 "Fin 1" "[scenario_exit]" hypot_cr "(Fin 2, Fin 0)"]
    unabled_evac_time_guard [of 2 "Fin 0" "[scenario_exit]" hypot_cr "(Fin 2, Fin 0)"]
    unabled_evac_time_guard [of 2 "Fin 1" "[]" hypot_cr "(Fin 2, Fin 0)"]
  by simp

theorem claimed_rooms_disjoint_witness:
  "sim_point hypot_cr (Fin 1) (initial_state 2 [0, 1] [scenario_exit] (Fin 0, Fin 0) scenario_heap)
     (projr (assign_one hypot_cr (Fin 1) 1 (projr (assign_one hypot_cr (Fin 1) 0
        (compute_available
           (initial_state 2 [0, 1] [scenario_exit] (Fin 0, Fin 0) scenario_heap)))))) \<and>
   claimed (responders (projr (assign_one hypot_cr (Fin 1) 1 (projr (assign_one hypot_cr (Fin 1) 0
        (compute_available
           (initial_state 2 [0, 1] [scenario_exit] (Fin 0, Fin 0) scenario_heap)))))) ! 0)
     = {0} \<and>
   claimed (responders (projr (assign_one hypot_cr (Fin 1) 1 (projr (assign_one hypot_cr (Fin 1) 0
        (compute_available
           (initial_state 2 [0, 1] [scenario_exit] (Fin 0, Fin 0) scenario_heap)))))) ! 1)
     = {1} \<and>
   claimed (responders (projr (assign_one hypot_cr (Fin 1) 1 (projr (assign_one hypot_cr (Fin 1) 0
        (compute_available
           (initial_state 2 [0, 1] [scenario_exit] (Fin 0, Fin 0) scenario_heap)))))) ! 0)
   \<inter> claimed (responders (projr (assign_one hypot_cr (Fin 1) 1 (projr (assign_one hypot_cr (Fin 1) 0
        (compute_available
           (initial_state 2 [0, 1] [scenario_exit] (Fin 0, Fin 0) scenario_heap)))))) ! 1)
     = {}"
proof -
  let ?I = "initial_state 2 [0, 1] [scenario_exit] (Fin 0, Fin 0) scenario_heap"
  let ?A = "compute_available ?I"
  let ?idle = "\<lparr>state = Idle, time_remaining = F (Fin 0), position = Some (Fin 0, Fin 0),
                 target_room = None, target_door = None\<rparr>"
  let ?moving = "\<lambda>room. \<lparr>state = Moving, time_remaining = F (Fin 2), position = Some (Fin 0, Fin 0),
                 target_room = Some room, target_door = Some (Fin 2, Fin 0)\<rparr>"
  have A: "?A = ?I\<lparr>available_rooms := [0, 1]\<rparr>"
    by (simp add: initial_state_def compute_available_def already_taken_def room_in_def)
  have two: "replicate 2 x = [x, x]" for x :: ResponderState
    by (simp add: numeral_2_eq_2)
  have e1: "assign_one hypot_cr (Fin 1) 0 ?A
      = Inr (?I\<lparr>responders := [?moving 0, ?idle], available_rooms := [1]\<rparr>)"
    unfolding A
    by (simp add: assign_one_def initial_state_def two choose_nearest_room_def
          door_positions_def get_door_positions_def door_position_def scenario_defs Let_def
          and_then_def fdiv_def)
  have e2: "assign_one hypot_cr (Fin 1) 1
        (?I\<lparr>responders := [?moving 0, ?idle], available_rooms := [1]\<rparr>)
      = Inr (?I\<lparr>responders := [?moving 0, ?moving 1], available_rooms := []\<rparr>)"
    by (simp add: assign_one_def initial_state_def two choose_nearest_room_def
          door_positions_def get_door_positions_def door_position_def scenario_defs Let_def
          and_then_def fdiv_def)
  let ?S = "?I\<lparr>responders := [?moving 0, ?moving 1], available_rooms := []\<rparr>"
  have S: "projr (assign_one hypot_cr (Fin 1) 1 (projr (assign_one hypot_cr (Fin 1) 0 ?A))) = ?S"
    by (simp only: e1 e2 sum.sel)
  have p0: "sim_point hypot_cr (Fin 1) ?I ?I" by (rule at_start)
  have p1: "sim_point hypot_cr (Fin 1) ?I ?A" using p0 by (rule at_available)
  have p2: "sim_point hypot_cr (Fin 1) ?I
      (?I\<lparr>responders := [?moving 0, ?idle], available_rooms := [1]\<rparr>)"
    using p1 _ e1 by (rule at_assign) (simp add: compute_available_def initial_state_def)
  have p3: "sim_point hypot_cr (Fin 1) ?I ?S"
    using p2 _ e2 by (rule at_assign) simp
  have len: "0 < length (responders ?S)" "1 < length (responders ?S)" "(0::nat) \<noteq> 1"
    by simp_all
  have disj: "claimed (responders ?S ! 0) \<inter> claimed (responders ?S ! 1) = {}"
    using claimed_rooms_disjoint [OF p3 len] .
  have c0: "claimed (responders ?S ! 0) = {0}" by (simp add: claimed_def)
  have c1: "claimed (responders ?S ! 1) = {1}" by (simp add: claimed_def)
  show ?thesis unfolding S using p3 c0 c1 disj by blast
qed

lemma scenario_run:
  "find_fastest_evacuation hypot_cr 1 [0] [scenario_exit] (Fin 1) (Fin 0, Fin 0) scenario_heap
     = Some (Inr (Fin 27), zero_unabled scenario_heap 0, [0], [scenario_exit])"
  apply (simp add: find_fastest_evacuation_def)
  apply (subst sim_loop.simps)
  apply (simp add: sim_defs scenario_defs door_position_def exit_position_def Let_def)
  apply (subst sim_loop.simps)
  apply (simp add: sim_defs scenario_defs door_position_def exit_position_def Let_def)
  apply (subst sim_loop.simps)
  apply (simp add: sim_defs scenario_defs door_position_def exit_position_def Let_def)
  apply (subst sim_loop.simps)
  apply (simp add: sim_defs scenario_defs door_position_def exit_position_def Let_def)
  done

theorem find_fastest_evacuation_frame_witness:
  "find_fastest_evacuation hypot_cr 1 [0] [scenario_exit] (Fin 1) (Fin 0, Fin 0) scenario_heap
     = Some (Inr (Fin 27), zero_unabled scenario_heap 0, [0], [scenario_exit]) \<and>
   doors (room_objs (zero_unabled scenario_heap 0) 0) = doors (room_objs scenario_heap 0) \<and>
   children (room_occupants (zero_unabled scenario_heap 0) 0)
     = children (room_occupants scenario_heap 0) \<and>
   unabled (room_occupants scenario_heap 0) = 2 \<and>
   unabled (room_occupants (zero_unabled scenario_heap 0) 0) = 0 \<and>
   heap_frame scenario_heap
     (store (compute_available
        (initial_state 1 [0] [scenario_exit] (Fin 0, Fin 0) scenario_heap)))"
proof -
  let ?I = "initial_state 1 [0] [scenario_exit] (Fin 0, Fin 0) scenario_heap"
  note t = find_fastest_evacuation_frame [of hypot_cr 1 "[0]" "[scenario_exit]" "Fin 1"
      "(Fin 0, Fin 0)" scenario_heap "Inr (Fin 27)" "zero_unabled scenario_heap 0" "[0]"
      "[scenario_exit]" "compute_available ?I"]
  have pt: "sim_point hypot_cr (Fin 1) ?I (compute_available ?I)"
    by (rule at_available) (rule at_start)
  from t scenario_run have fr: "doors (room_objs (zero_unabled scenario_heap 0) 0)
       = doors (room_objs scenario_heap 0) \<and>
     children (room_occupants (zero_unabled scenario_heap 0) 0)
       = children (room_occupants scenario_heap 0) \<and>
     (unabled (room_occupants (zero_unabled scenario_heap 0) 0)
        = unabled (room_occupants scenario_heap 0) \<or>
      unabled (room_occupants (zero_unabled scenario_heap 0) 0) = 0)"
    by blast
  have u: "unabled (room_occupants scenario_heap 0) = 2"
    by (simp add: scenario_defs room_occupants_def)
  from t pt have hf: "heap_frame scenario_heap (store (compute_available ?I))" by blast
  have z: "unabled (room_occupants (zero_unabled scenario_heap 0) 0) = 0"
    by (simp add: zero_unabled_def room_occupants_def Let_def)
  show ?thesis using scenario_run fr u z hf by blast
qed

end
